theory Spec2Isabelle
  imports Main "HOL-Library.Sublist"
begin

section \<open>Strings\<close>

text \<open>
  A Python \<open>str\<close> is modelled as a \<open>string\<close>, a list of characters with code points
  below 256. The character classes below are the ones Python's \<open>re\<close> and \<open>str\<close> use
  on that range.
\<close>

definition nl :: char where
  "nl = CHR 0x0A"

text \<open>\<open>str.isspace\<close> and the class \<open>\s\<close> of a \<open>str\<close> pattern.\<close>

definition isspace :: "char \<Rightarrow> bool" where
  "isspace c = (let n = (of_char c :: nat) in
     (9 \<le> n \<and> n \<le> 13) \<or> (28 \<le> n \<and> n \<le> 32) \<or> n = 133 \<or> n = 160)"

text \<open>The class \<open>\d\<close> of a \<open>str\<close> pattern.\<close>

definition isdigit :: "char \<Rightarrow> bool" where
  "isdigit c = (let n = (of_char c :: nat) in 48 \<le> n \<and> n \<le> 57)"

text \<open>The simple lower-case mapping that \<open>re.IGNORECASE\<close> applies to a character.\<close>

definition lower :: "char \<Rightarrow> char" where
  "lower c = (let n = (of_char c :: nat) in
     if (65 \<le> n \<and> n \<le> 90) \<or> (192 \<le> n \<and> n \<le> 222 \<and> n \<noteq> 215)
     then char_of (n + 32) else c)"

text \<open>\<open>s.strip()\<close>\<close>

definition strip :: "string \<Rightarrow> string" where
  "strip s = rev (dropWhile isspace (rev (dropWhile isspace s)))"

text \<open>\<open>s.replace(old, new)\<close> for a one-character \<open>old\<close>.\<close>

fun replace :: "char \<Rightarrow> string \<Rightarrow> string \<Rightarrow> string" where
  "replace old new [] = []"
| "replace old new (c # cs) =
     (if c = old then new @ replace old new cs else c # replace old new cs)"

text \<open>\<open>str(n)\<close> of an integer, as an f-string formats it.\<close>

fun str_nat :: "nat \<Rightarrow> string" where
  "str_nat n = (if n < 10 then [''0123456789'' ! n]
                else str_nat (n div 10) @ [''0123456789'' ! (n mod 10)])"

declare str_nat.simps [simp del]

definition str :: "int \<Rightarrow> string" where
  "str i = (if i < 0 then CHR ''-'' # str_nat (nat (- i)) else str_nat (nat i))"

section \<open>Regular expressions\<close>

text \<open>
  The patterns of the program are values of the following syntax tree. The matcher is the
  backtracking search of Python's \<open>re\<close>: \<open>ends\<close> lists every way a pattern can
  match at the start of a text, as the text left over, in the order in which the search
  tries them. Alternatives come in their order, a greedy repetition gives the longest run
  first, a lazy one the shortest. The first entry is the match.
\<close>

datatype category = Digit | Space

datatype member = C char | K category

datatype item =
    Chr char
  | Dot
  | Cat category
  | In "member list"
  | NotIn "member list"

datatype regex =
    Eps
  | One item
  | Seq regex regex
  | Alt regex regex
  | Star item
  | Lazy item
  | Rep nat regex
  | Look regex
  | Eos
  | Grp regex

fun category_ok :: "category \<Rightarrow> char \<Rightarrow> bool" where
  "category_ok Digit c = isdigit c"
| "category_ok Space c = isspace c"

fun member_ok :: "bool \<Rightarrow> member \<Rightarrow> char \<Rightarrow> bool" where
  "member_ok ci (C d) c = (if ci then lower c = lower d else c = d)"
| "member_ok ci (K k) c = category_ok k (if ci then lower c else c)"

text \<open>Whether one character is accepted by a one-character item; \<open>ci\<close> is the flag \<open>(?i)\<close>.\<close>

fun item_ok :: "bool \<Rightarrow> item \<Rightarrow> char \<Rightarrow> bool" where
  "item_ok ci (Chr d) c = (if ci then lower c = lower d else c = d)"
| "item_ok ci Dot c = (c \<noteq> nl)"
| "item_ok ci (Cat k) c = category_ok k c"
| "item_ok ci (In ms) c = (\<exists>m \<in> set ms. member_ok ci m c)"
| "item_ok ci (NotIn ms) c = (\<not> (\<exists>m \<in> set ms. member_ok ci m c))"

text \<open>\<open>x*\<close>: as many characters as possible, giving back one at a time.\<close>

fun max_repeat :: "(char \<Rightarrow> bool) \<Rightarrow> string \<Rightarrow> string list" where
  "max_repeat p [] = [[]]"
| "max_repeat p (c # cs) = (if p c then max_repeat p cs else []) @ [c # cs]"

text \<open>\<open>x*?\<close>: as few characters as possible, taking one more at a time.\<close>

fun min_repeat :: "(char \<Rightarrow> bool) \<Rightarrow> string \<Rightarrow> string list" where
  "min_repeat p [] = [[]]"
| "min_repeat p (c # cs) = (c # cs) # (if p c then min_repeat p cs else [])"

text \<open>
  \<open>Rep n r\<close> is the greedy \<open>(?:r){0,n}\<close>: one more round of \<open>r\<close> is tried before what
  follows. Python stops repeating after a round that consumed nothing; no round of the
  pattern of this program can. \<open>$\<close> (without \<open>re.MULTILINE\<close>) holds at the end of the
  text and before a final newline. \<open>Look r\<close> is the lookahead \<open>(?=r)\<close> and \<open>Grp r\<close> a
  capturing group.
\<close>

function (sequential) ends :: "bool \<Rightarrow> regex \<Rightarrow> string \<Rightarrow> string list" where
  "ends ci Eps s = [s]"
| "ends ci (One i) s =
     (case s of [] \<Rightarrow> [] | c # cs \<Rightarrow> if item_ok ci i c then [cs] else [])"
| "ends ci (Seq r1 r2) s = concat (map (ends ci r2) (ends ci r1 s))"
| "ends ci (Alt r1 r2) s = ends ci r1 s @ ends ci r2 s"
| "ends ci (Star i) s = max_repeat (item_ok ci i) s"
| "ends ci (Lazy i) s = min_repeat (item_ok ci i) s"
| "ends ci (Rep 0 r) s = [s]"
| "ends ci (Rep (Suc n) r) s = concat (map (ends ci (Rep n r)) (ends ci r s)) @ [s]"
| "ends ci (Look r) s = (if ends ci r s = [] then [] else [s])"
| "ends ci Eos s = (if s = [] \<or> s = [nl] then [s] else [])"
| "ends ci (Grp r) s = ends ci r s"
  by pat_completeness auto
termination
  by (relation "measures [\<lambda>(ci, r, s). size r,
                          \<lambda>(ci, r, s). case r of Rep n _ \<Rightarrow> n | _ \<Rightarrow> 0]") auto

text \<open>
  One attempt at one position. With \<open>must\<close> set an empty match is refused: this is how
  the scanner behind \<open>finditer\<close> steps past an empty match.
\<close>

definition re_match :: "bool \<Rightarrow> regex \<Rightarrow> bool \<Rightarrow> string \<Rightarrow> string option" where
  "re_match ci r must s = find (\<lambda>e. \<not> (must \<and> e = s)) (ends ci r s)"

text \<open>
  One attempt at every start position, left to right, the end of the text included. The
  result is the remaining text at the start and at the end of the match.
\<close>

fun search :: "bool \<Rightarrow> regex \<Rightarrow> bool \<Rightarrow> string \<Rightarrow> (string \<times> string) option" where
  "search ci r must [] =
     (case re_match ci r must [] of None \<Rightarrow> None | Some e \<Rightarrow> Some ([], e))"
| "search ci r must (c # cs) =
     (case re_match ci r must (c # cs) of
        None \<Rightarrow> search ci r False cs | Some e \<Rightarrow> Some (c # cs, e))"

text \<open>\<open>match.group(0)\<close>: the text between the start and the end of the match.\<close>

definition group0 :: "string \<Rightarrow> string \<Rightarrow> string" where
  "group0 st e = take (length st - length e) st"

lemma max_repeat_suffix: "e \<in> set (max_repeat p s) \<Longrightarrow> suffix e s"
  by (induction s) (auto split: if_splits intro: suffix_ConsI)

lemma min_repeat_suffix: "e \<in> set (min_repeat p s) \<Longrightarrow> suffix e s"
  by (induction s) (auto split: if_splits intro: suffix_ConsI)

lemma ends_suffix: "e \<in> set (ends ci r s) \<Longrightarrow> suffix e s"
proof (induction ci r s arbitrary: e rule: ends.induct)
  case (2 ci i s)
  then show ?case by (cases s) (auto split: if_splits intro: suffix_ConsI)
next
  case (3 ci r1 r2 s)
  then obtain m where "m \<in> set (ends ci r1 s)" "e \<in> set (ends ci r2 m)" by auto
  with 3 have "suffix m s" "suffix e m" by auto
  then show ?case by (rule suffix_order.trans[rotated])
next
  case (8 ci n r s)
  show ?case
  proof (cases "e = s")
    case False
    with 8 obtain m where "m \<in> set (ends ci r s)" "e \<in> set (ends ci (Rep n r) m)" by auto
    with 8 have "suffix m s" "suffix e m" by auto
    then show ?thesis by (rule suffix_order.trans[rotated])
  qed simp
qed (auto dest: max_repeat_suffix min_repeat_suffix split: if_splits)

lemma re_match_suffix:
  "re_match ci r must s = Some e \<Longrightarrow> suffix e s \<and> (must \<longrightarrow> e \<noteq> s)"
  by (auto simp: re_match_def find_Some_iff dest: ends_suffix nth_mem)

lemma search_suffix:
  "search ci r must s = Some (st, e) \<Longrightarrow>
     suffix st s \<and> suffix e st \<and> (must \<and> st = s \<longrightarrow> e \<noteq> s)"
proof (induction s arbitrary: must)
  case Nil
  then show ?case by (auto split: option.splits dest: re_match_suffix)
next
  case (Cons c cs)
  show ?case
  proof (cases "re_match ci r must (c # cs)")
    case None
    with Cons.prems have "search ci r False cs = Some (st, e)" by simp
    from Cons.IH[OF this] have "suffix st cs" "suffix e st" by auto
    moreover from \<open>suffix st cs\<close> have "st \<noteq> c # cs"
      by (auto dest: suffix_length_le)
    ultimately show ?thesis by (auto intro: suffix_ConsI)
  next
    case (Some y)
    with Cons.prems have "st = c # cs" "y = e" by auto
    with re_match_suffix[OF Some] show ?thesis by auto
  qed
qed

lemma suffix_length_less: "suffix a b \<Longrightarrow> a \<noteq> b \<Longrightarrow> length a < length b"
  by (auto simp: suffix_def)

text \<open>
  \<open>re.finditer\<close>: the matches from left to right, each search starting where the
  previous match ended.
\<close>

function finditer_from :: "bool \<Rightarrow> regex \<Rightarrow> bool \<Rightarrow> string \<Rightarrow> (string \<times> string) list" where
  "finditer_from ci r must s =
     (case search ci r must s of
        None \<Rightarrow> []
      | Some (st, e) \<Rightarrow> (st, e) # finditer_from ci r (e = st) e)"
  by pat_completeness auto
termination
proof (relation "measure (\<lambda>(ci, r, must, s). 2 * length s + (if must then 0 else 1))", goal_cases)
  case 1
  then show ?case by simp
next
  case (2 ci r must s x2 st e)
  then have "search ci r must s = Some (st, e)" by simp
  from search_suffix[OF this]
  have a: "suffix st s" "suffix e st" "must \<and> st = s \<longrightarrow> e \<noteq> s" by auto
  then have le: "length st \<le> length s" "length e \<le> length st"
    by (auto dest: suffix_length_le)
  show ?case
  proof (cases "e = st")
    case True
    show ?thesis
    proof (cases "st = s")
      case True
      with \<open>e = st\<close> a(3) have "\<not> must" by auto
      with True \<open>e = st\<close> show ?thesis by simp
    next
      case False
      with a(1) have "length st < length s" by (rule suffix_length_less)
      with True show ?thesis by simp
    qed
  next
    case False
    with a(2) have "length e < length st" by (rule suffix_length_less)
    with le False show ?thesis by simp
  qed
qed

declare finditer_from.simps [simp del]

text \<open>A compiled pattern: its flag \<open>(?i)\<close> and its body.\<close>

record pattern =
  ignorecase :: bool
  body :: regex

definition re_search :: "pattern \<Rightarrow> string \<Rightarrow> string option" where
  "re_search p s =
     (case search (ignorecase p) (body p) False s of
        None \<Rightarrow> None | Some (st, e) \<Rightarrow> Some (group0 st e))"

definition finditer :: "pattern \<Rightarrow> string \<Rightarrow> string list" where
  "finditer p s = map (\<lambda>(st, e). group0 st e) (finditer_from (ignorecase p) (body p) False s)"

text \<open>Writing patterns: a sequence, a literal string and \<open>x+\<close>.\<close>

definition seq :: "regex list \<Rightarrow> regex" where
  "seq rs = foldr Seq rs Eps"

definition lit :: "string \<Rightarrow> regex" where
  "lit s = seq (map (\<lambda>c. One (Chr c)) s)"

definition plus :: "item \<Rightarrow> regex" where
  "plus i = Seq (One i) (Star i)"

section \<open>Configuration\<close>

definition BASE_URL :: string where
  "BASE_URL = ''https://www.courtsofnz.govt.nz/''"

definition SEARCH_URL :: string where
  "SEARCH_URL = ''https://www.courtsofnz.govt.nz/the-courts/supreme-court/judgments-supreme''"

text \<open>\<open>range(2004, 2026)\<close>\<close>

definition YEARS_TO_CRAWL :: "int list" where
  "YEARS_TO_CRAWL = [2004 .. 2025]"

text \<open>\<open>(?i)[^\n]*<phrase>[^\n]*\<close>\<close>

definition line_with :: "string \<Rightarrow> regex" where
  "line_with phrase = seq [Star (NotIn [C nl]), lit phrase, Star (NotIn [C nl])]"

text \<open>\<open>(?i)(?:[^\n.!?]*[\s\n]){0,50}The question is whether.*?(?:[\.!?](?=\s|$))\<close>\<close>

definition question_re :: regex where
  "question_re = seq [
     Rep 50 (seq [Star (NotIn [C nl, C CHR ''.'', C CHR ''!'', C CHR ''?'']),
                       One (In [K Space, C nl])]),
     lit ''The question is whether'',
     Lazy Dot,
     One (In [C CHR ''.'', C CHR ''!'', C CHR ''?'']),
     Look (Alt (One (Cat Space)) Eos)]"

text \<open>\<open>(i)[^\n]*The applicable test is[^\n]*\<close>: \<open>(i)\<close> is a group holding the letter i.\<close>

definition test_re :: regex where
  "test_re = seq [Grp (One (Chr CHR ''i'')), Star (NotIn [C nl]),
                  lit ''The applicable test is'', Star (NotIn [C nl])]"

text \<open>The dictionary \<open>PATTERNS\<close>, in the order of its declaration.\<close>

definition PATTERNS :: "(string \<times> pattern) list" where
  "PATTERNS = [
     (''The question is whether'', \<lparr>ignorecase = True, body = question_re\<rparr>),
     (''The leading case'', \<lparr>ignorecase = True, body = line_with ''The leading case''\<rparr>),
     (''The leading authority'',
        \<lparr>ignorecase = True, body = line_with ''The leading authority''\<rparr>),
     (''The issue here is whether'',
        \<lparr>ignorecase = True, body = line_with ''The issue here is whether''\<rparr>),
     (''The applicable test is'', \<lparr>ignorecase = False, body = test_re\<rparr>),
     (''The applicable threshold is'',
        \<lparr>ignorecase = True, body = line_with ''The applicable threshold is''\<rparr>)]"

text \<open>\<open>\[\d{4}\] NZSC \d+\<close>\<close>

definition citation_re :: pattern where
  "citation_re = \<lparr>ignorecase = False, body = seq [
     One (Chr CHR ''[''), One (Cat Digit), One (Cat Digit), One (Cat Digit), One (Cat Digit),
     One (Chr CHR '']''), lit '' NZSC '', plus (Cat Digit)]\<rparr>"

text \<open>\<open>\.pdf$\<close>\<close>

definition pdf_re :: pattern where
  "pdf_re = \<lparr>ignorecase = False, body = seq [lit ''.pdf'', Eos]\<rparr>"

section \<open>The world outside the program\<close>

text \<open>
  The libraries the program calls are parameters of the model. The state of the network,
  of the site and of the file system is a value \<open>'w\<close> that every request and every
  write takes and returns, so the same address may answer differently each time.
\<close>

text \<open>
  The exceptions of a run. \<open>RequestException\<close> stands for the class and its subclasses;
  \<open>OtherError\<close> is any other exception, by its name.
\<close>

datatype error =
    AttributeError
  | KeyError
  | ValueError
  | RequestException
  | IllegalCharacterError
  | OtherError string

text \<open>An \<open>a\<close> element: its text, as \<open>get_text(strip=True)\<close> gives it, and its \<open>href\<close>.\<close>

record a_tag =
  get_text :: string
  href :: "string option"

text \<open>An \<open>h3\<close> element: what \<open>find('a')\<close> returns on it.\<close>

record h3_tag =
  find_a :: "a_tag option"

text \<open>
  A \<open>div\<close> of class \<open>result\<close>: what \<open>find('h3')\<close> returns on it, and the text of
  what \<open>find('p', class_='meta-data')\<close> returns.
\<close>

record result =
  find_h3 :: "h3_tag option"
  find_meta_data :: "string option"

text \<open>
  A parsed page: its \<open>div\<close> elements of class \<open>result\<close> (\<open>find_all\<close>) and its
  \<open>a\<close> elements, both in document order.
\<close>

record soup =
  find_all_result :: "result list"
  a_tags :: "a_tag list"

text \<open>A response: whether \<open>raise_for_status\<close> passes, and its content.\<close>

record response =
  status_ok :: bool
  content :: string

text \<open>A page of an opened PDF: the value of \<open>extract_text()\<close>, or an exception.\<close>

datatype page = Page "string option" | Broken

type_synonym params = "(string \<times> string) list"

text \<open>A \<open>DataFrame\<close>: its columns and its rows.\<close>

record table =
  columns :: "string list"
  rows :: "string list list"

text \<open>
  \<open>requests_get\<close> and \<open>urljoin\<close> return a value or raise (\<open>Inl\<close>);
  \<open>pdfplumber_open\<close> stands for writing the scratch file and opening it, \<open>None\<close>
  when either raises; \<open>to_csv\<close> and \<open>to_excel\<close> write a file or raise
  (\<open>Some\<close>).
\<close>

record 'w env =
  requests_get :: "string \<Rightarrow> params option \<Rightarrow> nat \<Rightarrow> 'w \<Rightarrow> (error + response) \<times> 'w"
  BeautifulSoup :: "string \<Rightarrow> soup"
  pdfplumber_open :: "string \<Rightarrow> page list option"
  urljoin :: "string \<Rightarrow> string \<Rightarrow> error + string"
  to_csv :: "string \<Rightarrow> string \<Rightarrow> bool \<Rightarrow> table \<Rightarrow> 'w \<Rightarrow> error option \<times> 'w"
  to_excel :: "string \<Rightarrow> bool \<Rightarrow> table \<Rightarrow> 'w \<Rightarrow> error option \<times> 'w"

section \<open>The crawler\<close>

text \<open>
  \<open>get_soup\<close> catches \<open>RequestException\<close>, also the one \<open>raise_for_status\<close>
  raises, and returns \<open>None\<close>; any other exception of the request leaves it.
\<close>

definition get_soup ::
  "'w env \<Rightarrow> string \<Rightarrow> params option \<Rightarrow> 'w \<Rightarrow> (error + soup option) \<times> 'w" where
  "get_soup env url ps w =
     (case requests_get env url ps 20 w of
        (Inl e, w') \<Rightarrow> if e = RequestException then (Inr None, w') else (Inl e, w')
      | (Inr resp, w') \<Rightarrow>
          if status_ok resp then (Inr (Some (BeautifulSoup env (content resp))), w')
          else (Inr None, w'))"

text \<open>The loop over \<open>pdf.pages\<close>; \<open>None\<close> when a page raises.\<close>

fun pages_text :: "page list \<Rightarrow> string \<Rightarrow> string option" where
  "pages_text [] full_text = Some full_text"
| "pages_text (Broken # ps) full_text = None"
| "pages_text (Page None # ps) full_text = pages_text ps full_text"
| "pages_text (Page (Some text) # ps) full_text =
     (if text \<noteq> [] then pages_text ps (full_text @ text @ [nl])
      else pages_text ps full_text)"

text \<open>\<open>extract_text_from_pdf\<close> catches every exception and returns the empty text.\<close>

definition extract_text_from_pdf :: "'w env \<Rightarrow> string \<Rightarrow> 'w \<Rightarrow> string \<times> 'w" where
  "extract_text_from_pdf env pdf_url w =
     (case requests_get env pdf_url None 30 w of
        (Inl e, w') \<Rightarrow> ([], w')
      | (Inr resp, w') \<Rightarrow>
          if \<not> status_ok resp then ([], w')
          else (case pdfplumber_open env (content resp) of
                  None \<Rightarrow> ([], w')
                | Some pages \<Rightarrow>
                    (case pages_text pages [] of
                       None \<Rightarrow> ([], w')
                     | Some full_text \<Rightarrow> (full_text, w'))))"

text \<open>A record of the list \<open>all_propositions\<close>, with the keys of the dictionary.\<close>

record proposition_data =
  doc_id :: string
  title :: string
  url :: string
  proposition_text :: string
  citation :: string
  pattern_matched :: string

type_synonym 'w state = "'w \<times> proposition_data list"

text \<open>\<open>citation.replace('[', '').replace(']', '').replace(' ', '_')\<close>\<close>

definition make_doc_id :: "string \<Rightarrow> string" where
  "make_doc_id cit =
     replace CHR '' '' ''_'' (replace CHR '']'' [] (replace CHR ''['' [] cit))"

text \<open>The citation of a result row, from the text of its meta-data paragraph.\<close>

definition find_citation :: "int \<Rightarrow> string \<Rightarrow> string" where
  "find_citation year meta =
     (case re_search citation_re meta of
        Some c \<Rightarrow> c
      | None \<Rightarrow> ''UNKNOWN_CITATION_'' @ str year)"

text \<open>\<open>details_soup.find('a', href=re.compile(r'\.pdf$'))\<close>\<close>

definition find_pdf_tag :: "soup \<Rightarrow> string option" where
  "find_pdf_tag sp =
     (case filter (\<lambda>h. re_search pdf_re h \<noteq> None) (List.map_filter href (a_tags sp)) of
        [] \<Rightarrow> None | h # _ \<Rightarrow> Some h)"

text \<open>The two loops over \<open>PATTERNS\<close> and over the matches of each pattern.\<close>

definition match_patterns :: "string \<Rightarrow> string \<Rightarrow> string \<Rightarrow> string \<Rightarrow> proposition_data list" where
  "match_patterns cit case_title pdf_url document_text =
     concat (map (\<lambda>(pattern_name, regex).
        map (\<lambda>m. \<lparr>doc_id = make_doc_id cit, title = case_title, url = pdf_url,
                   proposition_text = strip m, citation = cit,
                   pattern_matched = pattern_name\<rparr>)
            (finditer regex document_text)) PATTERNS)"

text \<open>
  The body of the loop over the result rows. \<open>Inl\<close> is an exception that nothing
  catches; \<open>continue\<close> returns the state. The pause after a case is left out.
\<close>

definition process_result :: "'w env \<Rightarrow> int \<Rightarrow> result \<Rightarrow> 'w state \<Rightarrow> error + 'w state" where
  "process_result env year res st =
     (case st of (w, all_propositions) \<Rightarrow>
      case find_h3 res of
        None \<Rightarrow> Inl AttributeError
      | Some h3 \<Rightarrow>
         (case (find_a h3, find_meta_data res) of
            (None, _) \<Rightarrow> Inr st
          | (_, None) \<Rightarrow> Inr st
          | (Some case_title_tag, Some meta) \<Rightarrow>
             (case href case_title_tag of
                None \<Rightarrow> Inl KeyError
              | Some link \<Rightarrow>
                 (case urljoin env BASE_URL link of
                    Inl e \<Rightarrow> Inl e
                  | Inr case_details_url \<Rightarrow>
                     (let case_title = get_text case_title_tag;
                          cit = find_citation year meta
                      in case get_soup env case_details_url None w of
                           (Inl e, w1) \<Rightarrow> Inl e
                         | (Inr None, w1) \<Rightarrow> Inr (w1, all_propositions)
                         | (Inr (Some details_soup), w1) \<Rightarrow>
                            (case find_pdf_tag details_soup of
                               None \<Rightarrow> Inr (w1, all_propositions)
                             | Some pdf_href \<Rightarrow>
                                (case urljoin env BASE_URL pdf_href of
                                   Inl e \<Rightarrow> Inl e
                                 | Inr pdf_url \<Rightarrow>
                                    (case extract_text_from_pdf env pdf_url w1 of
                                       (document_text, w2) \<Rightarrow>
                                         if document_text = []
                                         then Inr (w2, all_propositions)
                                         else Inr (w2, all_propositions @
                                                match_patterns cit case_title pdf_url
                                                  document_text)))))))))"

text \<open>
  How far a run has come: it is over, an exception ended it, or it is still running when
  the model stops following it. Each carries the list reached.
\<close>

datatype 'w run = Done "'w state" | Raised error "'w state" | Running "'w state"

text \<open>\<open>for result in results\<close>\<close>

fun for_results :: "'w env \<Rightarrow> int \<Rightarrow> result list \<Rightarrow> 'w state \<Rightarrow> 'w run" where
  "for_results env year [] st = Done st"
| "for_results env year (res # rest) st =
     (case process_result env year res st of
        Inl e \<Rightarrow> Raised e st
      | Inr st' \<Rightarrow> for_results env year rest st')"

definition listing_params :: "int \<Rightarrow> int \<Rightarrow> params" where
  "listing_params year start_index =
     [(''Search'', []), (''CaseNum'', []), (''Year'', str year),
      (''action_search'', ''Search''), (''start'', str start_index)]"

text \<open>
  \<open>while True\<close> over the listing pages of one year. The site decides whether the loop
  ends, so the model follows it for at most \<open>fuel\<close> pages.
\<close>

fun crawl_year :: "nat \<Rightarrow> 'w env \<Rightarrow> int \<Rightarrow> int \<Rightarrow> 'w state \<Rightarrow> 'w run" where
  "crawl_year 0 env year start_index st = Running st"
| "crawl_year (Suc fuel) env year start_index st =
     (case st of (w, all_propositions) \<Rightarrow>
      case get_soup env SEARCH_URL (Some (listing_params year start_index)) w of
        (Inl e, w') \<Rightarrow> Raised e (w', all_propositions)
      | (Inr None, w') \<Rightarrow> Done (w', all_propositions)
      | (Inr (Some sp), w') \<Rightarrow>
          if find_all_result sp = [] then Done (w', all_propositions)
          else (case for_results env year (find_all_result sp) (w', all_propositions) of
                  Done st' \<Rightarrow> crawl_year fuel env year (start_index + 10) st'
                | Raised e st' \<Rightarrow> Raised e st'
                | Running st' \<Rightarrow> Running st'))"

text \<open>\<open>for year in YEARS_TO_CRAWL\<close>\<close>

fun crawl :: "nat \<Rightarrow> 'w env \<Rightarrow> int list \<Rightarrow> 'w state \<Rightarrow> 'w run" where
  "crawl fuel env [] st = Done st"
| "crawl fuel env (year # years) st =
     (case crawl_year fuel env year 0 st of
        Done st' \<Rightarrow> crawl fuel env years st'
      | Raised e st' \<Rightarrow> Raised e st'
      | Running st' \<Rightarrow> Running st')"






text \<open>The list \<open>all_propositions\<close> as a run has it.\<close>

fun all_propositions :: "'w run \<Rightarrow> proposition_data list" where
  "all_propositions (Done st) = snd st"
| "all_propositions (Raised e st) = snd st"
| "all_propositions (Running st) = snd st"

text \<open>
  The derivation of \<open>doc_id\<close> in the words of the specification: the characters
  \<open>[\<close>, \<open>]\<close> and space removed.
\<close>

definition spec_doc_id :: "string \<Rightarrow> string" where
  "spec_doc_id cit = filter (\<lambda>c. c \<notin> set ''[] '') cit"

text \<open>A record whose \<open>doc_id\<close> is the one the program derives from its citation.\<close>

definition derived :: "proposition_data \<Rightarrow> bool" where
  "derived p = (doc_id p = make_doc_id (citation p))"

section \<open>Words of the specification\<close>

text \<open>A text starts with a phrase, in any letter case.\<close>

fun starts_ci :: "string \<Rightarrow> string \<Rightarrow> bool" where
  "starts_ci [] s = True"
| "starts_ci (d # ds) [] = False"
| "starts_ci (d # ds) (c # cs) = (lower c = lower d \<and> starts_ci ds cs)"

text \<open>A text contains a phrase, in any letter case.\<close>

fun contains_ci :: "string \<Rightarrow> string \<Rightarrow> bool" where
  "contains_ci ph [] = starts_ci ph []"
| "contains_ci ph (c # cs) = (starts_ci ph (c # cs) \<or> contains_ci ph cs)"

text \<open>The lines of a text: the pieces between its newline characters.\<close>

function split_lines :: "string \<Rightarrow> string list" where
  "split_lines s =
     takeWhile (\<lambda>c. c \<noteq> nl) s #
       (case dropWhile (\<lambda>c. c \<noteq> nl) s of [] \<Rightarrow> [] | c # rest \<Rightarrow> split_lines rest)"
  by pat_completeness auto
termination
proof (relation "measure length", goal_cases)
  case 1
  then show ?case by simp
next
  case (2 s c rest)
  have "length (dropWhile (\<lambda>c. c \<noteq> nl) s) \<le> length s" by (rule length_dropWhile_le)
  with 2 show ?case by simp
qed

declare split_lines.simps [simp del]


text \<open>A sentence-terminal mark.\<close>

definition is_terminal :: "char \<Rightarrow> bool" where
  "is_terminal c = (c = CHR ''.'' \<or> c = CHR ''!'' \<or> c = CHR ''?'')"

section \<open>A sample site\<close>

text \<open>
  A site with one listing page, for the year 2021, holding one result row with a given
  case title; the detail page of the case links to a PDF of one page. Writing the CSV
  file succeeds; writing the workbook does what the engine \<open>openpyxl\<close> does: it raises
  when a cell holds a control character that a workbook cannot hold.
\<close>

definition sample_row :: "string \<Rightarrow> string \<Rightarrow> result" where
  "sample_row case_title meta =
     \<lparr>find_h3 = Some \<lparr>find_a = Some \<lparr>get_text = case_title,
                                         href = Some ''cases/r-v-smith''\<rparr>\<rparr>,
      find_meta_data = Some meta\<rparr>"

text \<open>The characters of \<open>[\000-\010]|[\013-\014]|[\016-\037]\<close>.\<close>

definition illegal_character :: "char \<Rightarrow> bool" where
  "illegal_character c = (let n = (of_char c :: nat) in
     n \<le> 8 \<or> (11 \<le> n \<and> n \<le> 12) \<or> (14 \<le> n \<and> n \<le> 31))"

definition openpyxl_to_excel :: "string \<Rightarrow> bool \<Rightarrow> table \<Rightarrow> unit \<Rightarrow> error option \<times> unit" where
  "openpyxl_to_excel name index df w =
     (if list_ex (list_ex (list_ex illegal_character)) (rows df)
      then Some IllegalCharacterError else None, w)"

definition sample_site :: "string \<Rightarrow> unit env" where
  "sample_site case_title = \<lparr>
     requests_get = (\<lambda>u ps t w.
       (if u = SEARCH_URL \<and> ps = Some (listing_params 2021 0)
          then Inr \<lparr>status_ok = True, content = ''listing''\<rparr>
        else if u = BASE_URL @ ''cases/r-v-smith''
          then Inr \<lparr>status_ok = True, content = ''details''\<rparr>
        else if u = BASE_URL @ ''judgment.pdf''
          then Inr \<lparr>status_ok = True, content = ''pdf''\<rparr>
        else Inl RequestException, w)),
     BeautifulSoup = (\<lambda>c.
       if c = ''listing''
       then \<lparr>find_all_result = [sample_row case_title ''[2021] NZSC 12''], a_tags = []\<rparr>
       else \<lparr>find_all_result = [],
             a_tags = [\<lparr>get_text = ''Judgment'', href = Some ''judgment.pdf''\<rparr>]\<rparr>),
     pdfplumber_open = (\<lambda>c. Some [Page (Some ''the leading case'')]),
     urljoin = (\<lambda>base rel. Inr (base @ rel)),
     to_csv = (\<lambda>name encoding index df w. (None, w)),
     to_excel = openpyxl_to_excel\<rparr>"

definition example_text :: string where
  "example_text = ''the leading case'' @ [nl]"

text \<open>A sentence that runs over two lines, as the text of a page has them.\<close>

definition wrapped_sentence :: string where
  "wrapped_sentence =
     ''Smith is the leading case and'' @ [nl] @ ''it remains the leading case.''"

text \<open>The record that the crawl of the sample site gives.\<close>

definition sample_data :: "string \<Rightarrow> proposition_data" where
  "sample_data case_title = \<lparr>doc_id = ''2021_NZSC_12'', title = case_title,
       url = BASE_URL @ ''judgment.pdf'', proposition_text = ''the leading case'',
       citation = ''[2021] NZSC 12'', pattern_matched = ''The leading case''\<rparr>"

text \<open>The sample site with the case \<open>R v Smith\<close>.\<close>

definition example_row :: result where
  "example_row = sample_row ''R v Smith'' ''[2021] NZSC 12''"

definition example_site :: "unit env" where
  "example_site = sample_site ''R v Smith''"

definition example_data :: proposition_data where
  "example_data = sample_data ''R v Smith''"


section \<open>Evaluating the sample site\<close>

lemma match_patterns_alt:
  "match_patterns cit t u text =
     concat (map (\<lambda>(n, ms). map (\<lambda>m. \<lparr>doc_id = make_doc_id cit, title = t, url = u,
                   proposition_text = strip m, citation = cit, pattern_matched = n\<rparr>) ms)
       (map (\<lambda>(n, p). (n, finditer p text)) PATTERNS))"
  by (simp add: match_patterns_def split_def comp_def)

lemma example_finditer:
  "map (\<lambda>(n, p). (n, finditer p example_text)) PATTERNS =
     [(''The question is whether'', []),
      (''The leading case'', [''the leading case'']),
      (''The leading authority'', []),
      (''The issue here is whether'', []),
      (''The applicable test is'', []),
      (''The applicable threshold is'', [])]"
  by code_simp

lemma strip_example: "strip ''the leading case'' = ''the leading case''"
  by code_simp

lemma example_match_patterns:
  "match_patterns cit t u example_text =
     [\<lparr>doc_id = make_doc_id cit, title = t, url = u,
       proposition_text = ''the leading case'', citation = cit,
       pattern_matched = ''The leading case''\<rparr>]"
  unfolding match_patterns_alt example_finditer by (simp add: strip_example)

lemma sample_requests:
  "requests_get (sample_site ttl) u ps t w =
     (if u = SEARCH_URL \<and> ps = Some (listing_params 2021 0)
          then Inr \<lparr>status_ok = True, content = ''listing''\<rparr>
        else if u = BASE_URL @ ''cases/r-v-smith''
          then Inr \<lparr>status_ok = True, content = ''details''\<rparr>
        else if u = BASE_URL @ ''judgment.pdf''
          then Inr \<lparr>status_ok = True, content = ''pdf''\<rparr>
        else Inl RequestException, w)"
  by (simp add: sample_site_def)

lemma sample_urls:
  "BASE_URL @ ''cases/r-v-smith'' \<noteq> SEARCH_URL"
  "BASE_URL @ ''judgment.pdf'' \<noteq> SEARCH_URL"
  "BASE_URL @ ''judgment.pdf'' \<noteq> BASE_URL @ ''cases/r-v-smith''"
  by (simp_all add: BASE_URL_def SEARCH_URL_def)

lemma sample_urljoin: "urljoin (sample_site ttl) base rel = Inr (base @ rel)"
  by (simp add: sample_site_def)

lemma sample_extract:
  "extract_text_from_pdf (sample_site ttl) (BASE_URL @ ''judgment.pdf'') w =
     (example_text, w)"
  by (simp add: extract_text_from_pdf_def sample_requests sample_urls)
     (simp add: sample_site_def example_text_def)

lemma example_text_nonempty: "example_text \<noteq> []"
  by (simp add: example_text_def)

lemma sample_details:
  "get_soup (sample_site ttl) (BASE_URL @ ''cases/r-v-smith'') None w =
     (Inr (Some \<lparr>find_all_result = [],
            a_tags = [\<lparr>get_text = ''Judgment'', href = Some ''judgment.pdf''\<rparr>]\<rparr>), w)"
  by (simp add: get_soup_def sample_requests sample_urls) (simp add: sample_site_def)

lemma sample_pdf_tag:
  "find_pdf_tag \<lparr>find_all_result = [],
       a_tags = [\<lparr>get_text = ''Judgment'', href = Some ''judgment.pdf''\<rparr>]\<rparr> =
     Some ''judgment.pdf''"
  by code_simp

lemma example_citation: "find_citation 2021 ''[2021] NZSC 12'' = ''[2021] NZSC 12''"
  by code_simp

lemma example_doc_id: "make_doc_id ''[2021] NZSC 12'' = ''2021_NZSC_12''"
  by code_simp

lemma sample_process_meta:
  "process_result (sample_site ttl') y (sample_row ttl meta) (w, acc) =
     Inr (w, acc @ [\<lparr>doc_id = make_doc_id (find_citation y meta), title = ttl,
       url = BASE_URL @ ''judgment.pdf'', proposition_text = ''the leading case'',
       citation = find_citation y meta, pattern_matched = ''The leading case''\<rparr>])"
  by (simp add: process_result_def sample_row_def sample_details
      sample_pdf_tag sample_extract example_match_patterns
      sample_urljoin example_text_nonempty Let_def)

lemma sample_process_result:
  "process_result (sample_site ttl') 2021 (sample_row ttl ''[2021] NZSC 12'') (w, acc) =
     Inr (w, acc @ [sample_data ttl])"
  using sample_process_meta[of ttl' 2021 ttl "''[2021] NZSC 12''" w acc]
  by (simp add: example_citation example_doc_id sample_data_def)

lemma sample_listing:
  "get_soup (sample_site ttl) SEARCH_URL (Some (listing_params y s)) w =
     (if listing_params y s = listing_params 2021 0
      then Inr (Some \<lparr>find_all_result = [sample_row ttl ''[2021] NZSC 12''], a_tags = []\<rparr>)
      else Inr None, w)"
  by (simp add: get_soup_def sample_requests sample_urls[symmetric]) (simp add: sample_site_def)

lemma sample_params:
  "listing_params 2021 10 \<noteq> listing_params 2021 0"
  "y \<in> set YEARS_TO_CRAWL \<Longrightarrow> y \<noteq> 2021 \<Longrightarrow> listing_params y 0 \<noteq> listing_params 2021 0"
   apply (simp add: listing_params_def str_def str_nat.simps)
  apply (simp add: YEARS_TO_CRAWL_def)
  apply (elim disjE; simp add: listing_params_def str_def str_nat.simps)
  done

lemma sample_crawl_year:
  "crawl_year 2 (sample_site ttl) 2021 0 (w, acc) = Done (w, acc @ [sample_data ttl])"
  by (simp add: numeral_2_eq_2 sample_listing sample_params sample_process_result)

lemma sample_crawl_other:
  "y \<in> set YEARS_TO_CRAWL \<Longrightarrow> y \<noteq> 2021 \<Longrightarrow> crawl_year 2 (sample_site ttl) y 0 st = Done st"
  by (cases st) (simp add: numeral_2_eq_2 sample_listing sample_params)

lemma sample_crawl:
  "crawl 2 (sample_site ttl) YEARS_TO_CRAWL (w, []) = Done (w, [sample_data ttl])"
proof -
  have "\<forall>y \<in> set YEARS_TO_CRAWL. y \<noteq> 2021 \<longrightarrow>
          (\<forall>st. crawl_year 2 (sample_site ttl) y 0 st = Done st)"
    by (simp add: sample_crawl_other)
  then show ?thesis
    by (simp add: YEARS_TO_CRAWL_def sample_crawl_year)
qed





lemma example_crawl:
  "crawl 2 example_site YEARS_TO_CRAWL (w, []) = Done (w, [example_data])"
  unfolding example_site_def example_data_def by (rule sample_crawl)

lemma example_extract:
  "extract_text_from_pdf example_site (BASE_URL @ ''judgment.pdf'') w = (example_text, w)"
  unfolding example_site_def by (rule sample_extract)

section \<open>The document identifier\<close>

lemma replace_map: "replace c [d] s = map (\<lambda>x. if x = c then d else x) s"
  by (induction s) auto

lemma replace_filter: "replace c [] s = filter (\<lambda>x. x \<noteq> c) s"
  by (induction s) auto

lemma replace_absent: "c \<notin> set s \<Longrightarrow> replace c new s = s"
  by (induction s) auto

lemma make_doc_id_eq:
  "make_doc_id cit = map (\<lambda>c. if c = CHR '' '' then CHR ''_'' else c)
      (filter (\<lambda>c. c \<noteq> CHR ''['' \<and> c \<noteq> CHR '']'') cit)"
  by (simp add: make_doc_id_def replace_map replace_filter conj_commute)

lemma make_doc_id_clean:
  "CHR ''['' \<notin> set (make_doc_id cit) \<and> CHR '']'' \<notin> set (make_doc_id cit)
     \<and> CHR '' '' \<notin> set (make_doc_id cit)"
  by (auto simp: make_doc_id_eq)

lemma make_doc_id_id:
  "CHR ''['' \<notin> set s \<Longrightarrow> CHR '']'' \<notin> set s \<Longrightarrow> CHR '' '' \<notin> set s \<Longrightarrow> make_doc_id s = s"
  by (simp add: make_doc_id_def replace_absent)

lemma match_patterns_fields:
  "p \<in> set (match_patterns cit t u text) \<Longrightarrow>
     doc_id p = make_doc_id cit \<and> citation p = cit \<and> title p = t \<and> url p = u"
  by (auto simp: match_patterns_def)

lemma str_nat_digits: "set (str_nat n) \<subseteq> set ''0123456789''"
proof (induction n rule: str_nat.induct)
  case (1 n)
  show ?case
  proof (cases "n < 10")
    case True
    then have "''0123456789'' ! n \<in> set ''0123456789''" by (intro nth_mem) simp
    with True show ?thesis by (subst str_nat.simps) simp
  next
    case False
    have "''0123456789'' ! (n mod 10) \<in> set ''0123456789''" by (intro nth_mem) simp
    with 1[OF False] False show ?thesis by (subst str_nat.simps) simp
  qed
qed

lemma str_chars: "set (str i) \<subseteq> insert CHR ''-'' (set ''0123456789'')"
proof -
  define D where "D = set ''0123456789''"
  have "set (str_nat n) \<subseteq> D" for n unfolding D_def by (rule str_nat_digits)
  then have "set (str i) \<subseteq> insert CHR ''-'' D"
    by (simp add: str_def subset_insertI2)
  then show ?thesis by (simp only: D_def)
qed

lemma str_clean:
  assumes "c \<in> set (str i)"
  shows "c \<noteq> CHR ''['' \<and> c \<noteq> CHR '']'' \<and> c \<noteq> CHR '' ''"
proof -
  from assms str_chars[of i] have "c \<in> insert CHR ''-'' (set ''0123456789'')"
    by (rule subsetD[rotated])
  then show ?thesis by auto
qed

lemma placeholder_doc_id:
  "make_doc_id (''UNKNOWN_CITATION_'' @ str year) = ''UNKNOWN_CITATION_'' @ str year"
proof (rule make_doc_id_id)
  show "CHR ''['' \<notin> set (''UNKNOWN_CITATION_'' @ str year)"
    using str_clean[of "CHR ''[''" year] by auto
  show "CHR '']'' \<notin> set (''UNKNOWN_CITATION_'' @ str year)"
    using str_clean[of "CHR '']''" year] by auto
  show "CHR '' '' \<notin> set (''UNKNOWN_CITATION_'' @ str year)"
    using str_clean[of "CHR '' ''" year] by auto
qed

section \<open>Rows and runs\<close>

lemma process_result_cases:
  "process_result env year res (w, acc) = Inr (w', acc') \<Longrightarrow>
     acc' = acc \<or> (\<exists>meta t u text. find_meta_data res = Some meta \<and>
        acc' = acc @ match_patterns (find_citation year meta) t u text)"
  by (auto simp: process_result_def Let_def
      split: option.splits prod.splits if_splits sum.splits)

lemma process_result_derived:
  assumes "process_result env year res (w, acc) = Inr (w', acc')" "\<forall>p \<in> set acc. derived p"
  shows "\<forall>p \<in> set acc'. derived p"
proof -
  from process_result_cases[OF assms(1)] show ?thesis
  proof
    assume "acc' = acc"
    with assms(2) show ?thesis by simp
  next
    assume "\<exists>meta t u text. find_meta_data res = Some meta \<and>
        acc' = acc @ match_patterns (find_citation year meta) t u text"
    then obtain meta t u doc where
      acc': "acc' = acc @ match_patterns (find_citation year meta) t u doc" by blast
    have "derived p" if "p \<in> set (match_patterns (find_citation year meta) t u doc)" for p
      using match_patterns_fields[OF that] by (simp add: derived_def)
    with assms(2) acc' show ?thesis by auto
  qed
qed

lemma for_results_derived:
  "\<forall>p \<in> set (snd st). derived p \<Longrightarrow>
     \<forall>p \<in> set (all_propositions (for_results env year rs st)). derived p"
proof (induction rs arbitrary: st)
  case Nil
  then show ?case by simp
next
  case (Cons res rs)
  obtain w acc where st: "st = (w, acc)" by (cases st)
  show ?case
  proof (cases "process_result env year res st")
    case (Inl e)
    with Cons.prems show ?thesis by simp
  next
    case (Inr st')
    obtain w' acc' where st': "st' = (w', acc')" by (cases st')
    from process_result_derived[OF Inr[unfolded st st']] Cons.prems st
    have "\<forall>p \<in> set (snd st'). derived p" by (simp add: st')
    from Cons.IH[OF this] Inr show ?thesis by simp
  qed
qed

lemma crawl_year_derived:
  "\<forall>p \<in> set (snd st). derived p \<Longrightarrow>
     \<forall>p \<in> set (all_propositions (crawl_year fuel env year start_index st)). derived p"
proof (induction fuel arbitrary: st start_index)
  case 0
  then show ?case by simp
next
  case (Suc fuel)
  obtain w acc where st: "st = (w, acc)" by (cases st)
  obtain sp w' where g: "get_soup env SEARCH_URL (Some (listing_params year start_index)) w = (sp, w')"
    by (cases "get_soup env SEARCH_URL (Some (listing_params year start_index)) w")
  show ?case
  proof (cases sp)
    case (Inl e)
    with g st Suc.prems show ?thesis by simp
  next
    case (Inr found)
    show ?thesis
    proof (cases found)
      case None
      with Inr g st Suc.prems show ?thesis by simp
    next
      case (Some page)
      have inv: "\<forall>p \<in> set (snd (w', acc)). derived p" using Suc.prems st by simp
      note fr = for_results_derived[OF inv, of env year "find_all_result page"]
      show ?thesis
      proof (cases "for_results env year (find_all_result page) (w', acc)")
        case (Done st')
        with fr have "\<forall>p \<in> set (snd st'). derived p" by simp
        from Suc.IH[OF this] Done g st Inr Some Suc.prems show ?thesis by simp
      next
        case (Raised e st')
        with fr g st Inr Some Suc.prems show ?thesis by simp
      next
        case (Running st')
        with fr g st Inr Some Suc.prems show ?thesis by simp
      qed
    qed
  qed
qed

lemma crawl_derived:
  "\<forall>p \<in> set (snd st). derived p \<Longrightarrow>
     \<forall>p \<in> set (all_propositions (crawl fuel env years st)). derived p"
proof (induction years arbitrary: st)
  case Nil
  then show ?case by simp
next
  case (Cons year years)
  note cy = crawl_year_derived[OF Cons.prems, of fuel env year 0]
  show ?case
  proof (cases "crawl_year fuel env year 0 st")
    case (Done st')
    with cy have "\<forall>p \<in> set (snd st'). derived p" by simp
    from Cons.IH[OF this] Done show ?thesis by simp
  next
    case (Raised e st')
    with cy show ?thesis by simp
  next
    case (Running st')
    with cy show ?thesis by simp
  qed
qed



lemma pages_text_map:
  "pages_text (map Page ts) full_text =
     Some (full_text @ concat (map (\<lambda>t. t @ [nl]) (filter (\<lambda>t. t \<noteq> []) (List.map_filter id ts))))"
proof (induction ts arbitrary: full_text)
  case Nil
  then show ?case by (simp add: List.map_filter_def)
next
  case (Cons t ts)
  then show ?case by (cases t) (simp_all add: List.map_filter_def)
qed

section \<open>Characters\<close>

lemma of_char_lower:
  "(of_char (lower c) :: nat) =
     (if (65 \<le> (of_char c :: nat) \<and> (of_char c :: nat) \<le> 90)
          \<or> (192 \<le> (of_char c :: nat) \<and> (of_char c :: nat) \<le> 222 \<and> (of_char c :: nat) \<noteq> 215)
      then of_char c + 32 else of_char c)"
proof -
  have "(of_char c :: nat) < 256" by simp
  then show ?thesis by (auto simp: lower_def Let_def)
qed

lemma char_eq_code: "(c = d) = ((of_char c :: nat) = of_char d)"
  by auto

lemma lower_nl: "(lower c = nl) = (c = nl)"
proof -
  have "(lower c = nl) = ((of_char (lower c) :: nat) = of_char nl)" by (rule char_eq_code)
  also have "\<dots> = ((of_char c :: nat) = of_char nl)" by (simp add: of_char_lower nl_def)
  also have "\<dots> = (c = nl)" by (rule char_eq_code[symmetric])
  finally show ?thesis .
qed

lemma lower_nl_eq: "(lower c = lower nl) = (c = nl)"
  using lower_nl[of c] lower_nl[of nl] by auto

lemma isspace_lower: "isspace (lower c) = isspace c"
  by (simp add: isspace_def Let_def of_char_lower)





section \<open>The matcher\<close>

lemma ends_Seq_iff:
  "e \<in> set (ends ci (Seq a b) s) \<longleftrightarrow> (\<exists>m \<in> set (ends ci a s). e \<in> set (ends ci b m))"
  by auto

lemma ends_seq_Nil: "ends ci (seq []) s = [s]"
  by (simp add: seq_def)

lemma ends_seq_Cons: "ends ci (seq (r # rs)) s = concat (map (ends ci (seq rs)) (ends ci r s))"
  by (simp add: seq_def)

lemma concat_map_single: "concat (map (\<lambda>x. [x]) xs) = xs"
  by (induction xs) auto

lemma ends_seq_single: "ends ci (seq [r]) s = ends ci r s"
proof -
  have "ends ci (seq []) = (\<lambda>x. [x])" by (rule ext) (simp add: ends_seq_Nil)
  then show ?thesis by (simp add: ends_seq_Cons concat_map_single)
qed

text \<open>A literal matches when the text starts with it, up to letter case under \<open>(?i)\<close>.\<close>

lemma ends_lit:
  "ends ci (lit ph) s =
     (if length ph \<le> length s \<and> list_all2 (\<lambda>d c. item_ok ci (Chr d) c) ph (take (length ph) s)
      then [drop (length ph) s] else [])"
proof (induction ph arbitrary: s)
  case Nil
  then show ?case by (simp add: lit_def ends_seq_Nil)
next
  case (Cons d ph)
  have "ends ci (lit (d # ph)) s = concat (map (ends ci (lit ph)) (ends ci (One (Chr d)) s))"
    by (simp add: lit_def ends_seq_Cons)
  then show ?case using Cons.IH by (cases s) auto
qed

text \<open>The first entry of a list of lists laid end to end.\<close>

lemma concat_map_Cons:
  "concat (map f xs) = e # es \<Longrightarrow>
     \<exists>ys x zs es'. xs = ys @ x # zs \<and> (\<forall>y \<in> set ys. f y = []) \<and> f x = e # es'"
proof (induction xs)
  case Nil
  then show ?case by simp
next
  case (Cons x xs)
  show ?case
  proof (cases "f x")
    case Nil
    with Cons.prems have "concat (map f xs) = e # es" by simp
    from Cons.IH[OF this] obtain ys y zs es' where
      "xs = ys @ y # zs" "\<forall>y \<in> set ys. f y = []" "f y = e # es'" by blast
    with Nil have "x # xs = (x # ys) @ y # zs \<and> (\<forall>y \<in> set (x # ys). f y = []) \<and> f y = e # es'"
      by simp
    then show ?thesis by blast
  next
    case (Cons a as)
    with Cons.prems have "f x = e # as" by simp
    then have "x # xs = [] @ x # xs \<and> (\<forall>y \<in> set []. f y = []) \<and> f x = e # as" by simp
    then show ?thesis by blast
  qed
qed

text \<open>A lazy repetition stops at the first place where what follows matches.\<close>

lemma min_repeat_first:
  "concat (map f (min_repeat p h)) = e # es \<Longrightarrow>
     \<exists>w x es'. h = w @ x \<and> f x = e # es' \<and> (\<forall>c \<in> set w. p c)
       \<and> (\<forall>w1 w2. w = w1 @ w2 \<and> w2 \<noteq> [] \<longrightarrow> f (w2 @ x) = [])"
proof (induction h)
  case Nil
  then have "[] = [] @ [] \<and> f [] = e # es" by simp
  then show ?case by fastforce
next
  case (Cons c cs)
  show ?case
  proof (cases "f (c # cs)")
    case (Cons a as)
    with Cons.prems have "f (c # cs) = e # as" by simp
    then have "c # cs = [] @ (c # cs) \<and> f (c # cs) = e # as" by simp
    then show ?thesis by fastforce
  next
    case Nil
    with Cons.prems have pc: "p c" and rest: "concat (map f (min_repeat p cs)) = e # es"
      by (auto split: if_splits)
    from Cons.IH[OF rest] obtain w x es' where
      w: "cs = w @ x" "f x = e # es'" "\<forall>c \<in> set w. p c"
         "\<forall>w1 w2. w = w1 @ w2 \<and> w2 \<noteq> [] \<longrightarrow> f (w2 @ x) = []" by blast
    have "f (w2 @ x) = []" if "c # w = w1 @ w2" "w2 \<noteq> []" for w1 w2
    proof (cases w1)
      case Nil
      with that have "w2 @ x = c # cs" using w(1) by simp
      with \<open>f (c # cs) = []\<close> show ?thesis by simp
    next
      case (Cons a w1')
      with that have "w = w1' @ w2" by simp
      with w(4) that(2) show ?thesis by blast
    qed
    with w pc have "c # cs = (c # w) @ x \<and> f x = e # es' \<and> (\<forall>c \<in> set (c # w). p c)
       \<and> (\<forall>w1 w2. c # w = w1 @ w2 \<and> w2 \<noteq> [] \<longrightarrow> f (w2 @ x) = [])" by simp
    then show ?thesis by blast
  qed
qed

text \<open>A greedy repetition over a run of accepted characters gives the end of the run first.\<close>

lemma max_repeat_run:
  "\<forall>c \<in> set w. p c \<Longrightarrow> rest = [] \<or> \<not> p (hd rest) \<Longrightarrow>
     \<exists>es. max_repeat p (w @ rest) = rest # es"
proof (induction w)
  case Nil
  then show ?case by (cases rest) auto
next
  case (Cons c w)
  then obtain es where "max_repeat p (w @ rest) = rest # es" by auto
  with Cons.prems show ?case by simp
qed

lemma max_repeat_Cons:
  "p c \<Longrightarrow> concat (map f (max_repeat p (c # cs))) = concat (map f (max_repeat p cs)) @ f (c # cs)"
  by simp

lemma max_repeat_stop: "s = [] \<or> \<not> p (hd s) \<Longrightarrow> max_repeat p s = [s]"
  by (cases s) auto

section \<open>The patterns that match a line\<close>

lemma starts_ci_iff:
  "starts_ci ph s \<longleftrightarrow>
     length ph \<le> length s \<and> list_all2 (\<lambda>d c. item_ok True (Chr d) c) ph (take (length ph) s)"
  by (induction ph s rule: starts_ci.induct) auto

lemma ends_lit_ci:
  "ends True (lit ph) s = (if starts_ci ph s then [drop (length ph) s] else [])"
  by (simp add: ends_lit starts_ci_iff)

lemma starts_ci_length: "starts_ci ph s \<Longrightarrow> length ph \<le> length s"
  by (simp add: starts_ci_iff)

lemma starts_ci_lower:
  "starts_ci ph s \<longleftrightarrow>
     length ph \<le> length s \<and> map lower (take (length ph) s) = map lower ph"
  by (induction ph s rule: starts_ci.induct) auto

lemma starts_ci_fold:
  assumes "map lower ph = map lower ph'"
  shows "starts_ci ph s = starts_ci ph' s"
proof -
  from assms have "length ph = length ph'" by (rule map_eq_imp_length_eq)
  with assms show ?thesis by (simp only: starts_ci_lower)
qed

lemma contains_ci_fold:
  assumes "map lower ph = map lower ph'"
  shows "contains_ci ph s = contains_ci ph' s"
proof (induction s)
  case Nil
  show ?case using starts_ci_fold[OF assms, of "[]"] by (simp only: contains_ci.simps)
next
  case (Cons c s)
  show ?case using starts_ci_fold[OF assms, of "c # s"] Cons
    by (simp only: contains_ci.simps)
qed

lemma not_nl_ok: "item_ok True (NotIn [C nl]) c = (c \<noteq> nl)"
  by (simp add: lower_nl_eq)

text \<open>A phrase without a newline that starts a line lies within the line.\<close>

lemma starts_ci_line:
  "nl \<notin> set ph \<Longrightarrow> rest = [] \<or> hd rest = nl \<Longrightarrow>
     starts_ci ph (l @ rest) = starts_ci ph l"
proof (induction ph l rule: starts_ci.induct)
  case (1 s)
  then show ?case by simp
next
  case (2 d ds)
  show ?case
  proof (cases rest)
    case Nil
    then show ?thesis by simp
  next
    case (Cons c cs)
    with 2 have "c = nl" by simp
    moreover from 2 have "lower nl \<noteq> lower d" using lower_nl[of d] lower_nl[of nl] by auto
    ultimately show ?thesis using Cons by simp
  qed
next
  case (3 d ds c cs)
  then show ?case by simp
qed

text \<open>What follows the first \<open>[^\n]*\<close> of a line pattern, tried at \<open>x\<close>.\<close>

lemma line_tail:
  "ends True (seq [lit ph, Star (NotIn [C nl])]) x =
     (if starts_ci ph x then max_repeat (item_ok True (NotIn [C nl])) (drop (length ph) x) else [])"
proof -
  have "ends True (seq [Star (NotIn [C nl])]) = max_repeat (item_ok True (NotIn [C nl]))"
    by (rule ext) (simp add: ends_seq_single)
  then show ?thesis by (simp add: ends_seq_Cons[of True "lit ph"] ends_lit_ci)
qed

lemma line_tail_hit:
  assumes "nl \<notin> set l" "rest = [] \<or> hd rest = nl" "nl \<notin> set ph" "starts_ci ph l"
  shows "\<exists>es. ends True (seq [lit ph, Star (NotIn [C nl])]) (l @ rest) = rest # es"
proof -
  from assms(4) have len: "length ph \<le> length l" by (rule starts_ci_length)
  have st: "starts_ci ph (l @ rest)" using starts_ci_line[OF assms(3,2)] assms(4) by simp
  have "\<forall>c \<in> set (drop (length ph) l). item_ok True (NotIn [C nl]) c"
    using assms(1) by (auto simp: lower_nl_eq dest: in_set_dropD)
  moreover have "rest = [] \<or> \<not> item_ok True (NotIn [C nl]) (hd rest)"
    using assms(2) by (auto simp: lower_nl_eq)
  ultimately obtain es where
    "max_repeat (item_ok True (NotIn [C nl])) (drop (length ph) l @ rest) = rest # es"
    using max_repeat_run by blast
  with st len show ?thesis by (simp add: line_tail)
qed

lemma line_tail_miss:
  assumes "rest = [] \<or> hd rest = nl" "nl \<notin> set ph" "\<not> starts_ci ph l"
  shows "ends True (seq [lit ph, Star (NotIn [C nl])]) (l @ rest) = []"
  using starts_ci_line[OF assms(2,1), of l] assms(3) by (simp add: line_tail)

text \<open>
  A line pattern tried at the start of a line, or inside it: the rest of the line holds
  the phrase and the match runs to the end of the line, or there is no match.
\<close>

lemma ends_line:
  assumes "nl \<notin> set l" "rest = [] \<or> hd rest = nl" "nl \<notin> set ph" "ph \<noteq> []"
  shows "(contains_ci ph l \<longrightarrow> (\<exists>es. ends True (line_with ph) (l @ rest) = rest # es))
       \<and> (\<not> contains_ci ph l \<longrightarrow> ends True (line_with ph) (l @ rest) = [])"
  using assms(1)
proof (induction l)
  case Nil
  have "max_repeat (item_ok True (NotIn [C nl])) rest = [rest]"
    using assms(2) by (intro max_repeat_stop) (auto simp: lower_nl_eq)
  moreover have "\<not> starts_ci ph []" using assms(4) by (cases ph) auto
  ultimately show ?case
    using line_tail_miss[OF assms(2,3), of "[]"] assms(4)
    unfolding line_with_def ends_seq_Cons[of True "Star (NotIn [C nl])"] ends.simps
    by (cases ph) simp_all
next
  case (Cons c l)
  then have c: "item_ok True (NotIn [C nl]) c" and l: "nl \<notin> set l"
    by (auto simp: lower_nl_eq)
  let ?f = "ends True (seq [lit ph, Star (NotIn [C nl])])"
  have E: "ends True (line_with ph) ((c # l) @ rest) =
             ends True (line_with ph) (l @ rest) @ ?f ((c # l) @ rest)"
    unfolding line_with_def ends_seq_Cons[of True "Star (NotIn [C nl])"] ends.simps
    using max_repeat_Cons[of "item_ok True (NotIn [C nl])" c
        "ends True (seq [lit ph, Star (NotIn [C nl])])" "l @ rest", OF c] by simp
  show ?case
  proof (cases "contains_ci ph l")
    case True
    with Cons.IH[OF l] E show ?thesis by auto
  next
    case False
    with Cons.IH[OF l] have E': "ends True (line_with ph) ((c # l) @ rest) = ?f ((c # l) @ rest)"
      using E by simp
    show ?thesis
    proof (cases "starts_ci ph (c # l)")
      case True
      from line_tail_hit[OF Cons.prems assms(2,3) True] E' True show ?thesis by simp
    next
      case False
      from line_tail_miss[OF assms(2,3) False] E' False \<open>\<not> contains_ci ph l\<close>
      show ?thesis by simp
    qed
  qed
qed

lemma contains_ci_nonempty: "ph \<noteq> [] \<Longrightarrow> contains_ci ph l \<Longrightarrow> l \<noteq> []"
  by (cases ph) auto

lemma search_line_hit:
  assumes "nl \<notin> set l" "rest = [] \<or> hd rest = nl" "nl \<notin> set ph" "ph \<noteq> []"
    and "contains_ci ph l"
  shows "search True (line_with ph) must (l @ rest) = Some (l @ rest, rest)"
proof -
  from contains_ci_nonempty[OF assms(4,5)] obtain c l' where l: "l = c # l'" by (cases l) auto
  from ends_line[OF assms(1-4)] assms(5) obtain es where
    "ends True (line_with ph) (l @ rest) = rest # es" by blast
  moreover have "rest \<noteq> l @ rest" using l by simp
  ultimately have "re_match True (line_with ph) must (l @ rest) = Some rest"
    by (simp add: re_match_def)
  then show ?thesis by (simp add: l)
qed

lemma search_line_miss:
  assumes "rest = [] \<or> hd rest = nl" "nl \<notin> set ph" "ph \<noteq> []"
  shows "nl \<notin> set l \<Longrightarrow> \<not> contains_ci ph l \<Longrightarrow>
     search True (line_with ph) must (l @ rest) =
       (case rest of [] \<Rightarrow> None | c # rest' \<Rightarrow> search True (line_with ph) False rest')"
proof (induction l arbitrary: must)
  case Nil
  from ends_line[OF Nil(1) assms] Nil(2)
  have "ends True (line_with ph) rest = []" by simp
  then have "re_match True (line_with ph) must rest = None" by (simp add: re_match_def)
  then show ?case by (cases rest) auto
next
  case (Cons c l)
  from ends_line[OF Cons.prems(1) assms] Cons.prems(2)
  have "ends True (line_with ph) ((c # l) @ rest) = []" by simp
  then have "re_match True (line_with ph) must ((c # l) @ rest) = None"
    by (simp add: re_match_def)
  moreover from Cons.prems have "nl \<notin> set l" "\<not> contains_ci ph l" by auto
  ultimately show ?case using Cons.IH[of False] by simp
qed

lemma finditer_from_search:
  "search ci r must s = search ci r must' s' \<Longrightarrow>
     finditer_from ci r must s = finditer_from ci r must' s'"
  by (simp add: finditer_from.simps[of ci r must s] finditer_from.simps[of ci r must' s'])

text \<open>
  The matches of a line pattern are the lines of the text that hold the phrase, in any
  letter case, each one whole.
\<close>

lemma finditer_from_line:
  assumes "nl \<notin> set ph" "ph \<noteq> []"
  shows "map (\<lambda>(st, e). group0 st e) (finditer_from True (line_with ph) must s) =
           filter (contains_ci ph) (split_lines s)"
proof (induction s arbitrary: must rule: split_lines.induct)
  case (1 s)
  define l where "l = takeWhile (\<lambda>c. c \<noteq> nl) s"
  define d where "d = dropWhile (\<lambda>c. c \<noteq> nl) s"
  have s: "s = l @ d" by (simp add: l_def d_def)
  have l: "nl \<notin> set l" unfolding l_def by (auto dest: set_takeWhileD)
  have d: "d = [] \<or> hd d = nl"
    unfolding d_def using hd_dropWhile[of "\<lambda>c. c \<noteq> nl" s] by auto
  have sl: "split_lines s = l # (case d of [] \<Rightarrow> [] | c # rest \<Rightarrow> split_lines rest)"
    unfolding l_def d_def by (rule split_lines.simps)
  have IH: "map (\<lambda>(st, e). group0 st e) (finditer_from True (line_with ph) False rest) =
          filter (contains_ci ph) (split_lines rest)" if "d = c # rest" for c rest
    using 1[of c rest False] that by (simp add: d_def)
  have none: "\<not> contains_ci ph []" using assms(2) by (cases ph) auto
  have tail: "map (\<lambda>(st, e). group0 st e) (finditer_from True (line_with ph) False d) =
          filter (contains_ci ph) (case d of [] \<Rightarrow> [] | c # rest \<Rightarrow> split_lines rest)"
  proof (cases d)
    case Nil
    have "search True (line_with ph) False ([] @ []) = None"
      using search_line_miss[of "[]" ph "[]" False] assms none by simp
    then show ?thesis using Nil by (simp add: finditer_from.simps[of _ _ _ "[]"])
  next
    case (Cons c rest)
    have "search True (line_with ph) False ([] @ d) = search True (line_with ph) False rest"
      using search_line_miss[OF d assms, of "[]" False] none Cons by simp
    then have "finditer_from True (line_with ph) False d =
                 finditer_from True (line_with ph) False rest"
      by (intro finditer_from_search) simp
    with IH[OF Cons] Cons show ?thesis by simp
  qed
  show ?case
  proof (cases "contains_ci ph l")
    case True
    from search_line_hit[OF l d assms True, of must]
    have "search True (line_with ph) must s = Some (s, d)" by (simp add: s)
    moreover have "d \<noteq> s" using contains_ci_nonempty[OF assms(2) True] s by simp
    moreover have "group0 s d = l" by (simp add: s group0_def)
    ultimately show ?thesis using tail True
      by (simp add: finditer_from.simps[of _ _ must s] sl)
  next
    case False
    from search_line_miss[OF d assms l False, of must]
    have sm: "search True (line_with ph) must s =
       (case d of [] \<Rightarrow> None | c # rest' \<Rightarrow> search True (line_with ph) False rest')"
      by (simp add: s)
    show ?thesis
    proof (cases d)
      case Nil
      with sm False show ?thesis
        by (simp add: finditer_from.simps[of _ _ must s] sl)
    next
      case (Cons c rest)
      with sm have "search True (line_with ph) must s = search True (line_with ph) False rest"
        by simp
      then have "finditer_from True (line_with ph) must s =
                   finditer_from True (line_with ph) False rest"
        by (rule finditer_from_search)
      with IH[OF Cons] Cons False show ?thesis by (simp add: sl)
    qed
  qed
qed

lemma split_lines_one: "nl \<notin> set s \<Longrightarrow> split_lines s = [s]"
proof -
  assume "nl \<notin> set s"
  then have "takeWhile (\<lambda>c. c \<noteq> nl) s = s" "dropWhile (\<lambda>c. c \<noteq> nl) s = []" by auto
  then show ?thesis by (simp only: split_lines.simps[of s] list.case)
qed

section \<open>Matching under \<open>(?i)\<close> does not see the case of letters\<close>
















section \<open>The pattern of the question\<close>

lemma ends_seq_first:
  assumes "ends ci (seq (r # rs)) s = e # es"
  shows "\<exists>m es'. m \<in> set (ends ci r s) \<and> ends ci (seq rs) m = e # es'"
proof -
  from assms have "concat (map (ends ci (seq rs)) (ends ci r s)) = e # es"
    by (simp only: ends_seq_Cons)
  from concat_map_Cons[OF this] obtain ys x zs es' where
    "ends ci r s = ys @ x # zs" "ends ci (seq rs) x = e # es'" by blast
  then have "x \<in> set (ends ci r s) \<and> ends ci (seq rs) x = e # es'" by simp
  then show ?thesis by blast
qed

lemma ends_seq_mem:
  "e \<in> set (ends ci (seq (r # rs)) s) \<longleftrightarrow>
     (\<exists>m \<in> set (ends ci r s). e \<in> set (ends ci (seq rs) m))"
  by (simp only: ends_seq_Cons set_concat set_map) blast

lemma ends_One_mem: "e \<in> set (ends ci (One i) x) \<Longrightarrow> \<exists>t. x = t # e"
  by (cases x) (auto split: if_splits)

lemma ends_Look_mem: "e \<in> set (ends ci (Look r) x) \<Longrightarrow> e = x"
  by (auto split: if_splits)

lemma max_repeat_mem:
  "e \<in> set (max_repeat p s) \<Longrightarrow> \<exists>w. s = w @ e \<and> (\<forall>c \<in> set w. p c)"
proof (induction s)
  case Nil
  then show ?case by simp
next
  case (Cons c cs)
  show ?case
  proof (cases "e = c # cs")
    case True
    then show ?thesis by simp
  next
    case False
    with Cons.prems have pc: "p c" and "e \<in> set (max_repeat p cs)"
      by (auto split: if_splits)
    with Cons.IH obtain w where "cs = w @ e" "\<forall>c \<in> set w. p c" by blast
    with pc have "c # cs = (c # w) @ e \<and> (\<forall>a \<in> set (c # w). p a)" by simp
    then show ?thesis by blast
  qed
qed

lemma terminal_not_space: "is_terminal c \<Longrightarrow> \<not> isspace c \<and> c \<noteq> nl"
  by (auto simp: is_terminal_def isspace_def nl_def)

text \<open>One round of \<open>[^\n.!?]*[\s\n]\<close> consumes no sentence-terminal mark.\<close>

lemma clause_consumed:
  assumes "e \<in> set (ends True (seq [Star (NotIn [C nl, C CHR ''.'', C CHR ''!'', C CHR ''?'']),
                                     One (In [K Space, C nl])]) s)"
  shows "\<exists>w. s = w @ e \<and> (\<forall>c \<in> set w. \<not> is_terminal c)"
proof -
  let ?p = "item_ok True (NotIn [C nl, C CHR ''.'', C CHR ''!'', C CHR ''?''])"
  from assms obtain m where
    m: "m \<in> set (ends True (Star (NotIn [C nl, C CHR ''.'', C CHR ''!'', C CHR ''?''])) s)"
    and e: "e \<in> set (ends True (seq [One (In [K Space, C nl])]) m)"
    unfolding ends_seq_mem by blast
  from e have e': "e \<in> set (ends True (One (In [K Space, C nl])) m)"
    by (simp only: ends_seq_single)
  from ends_One_mem[OF e'] obtain c where c: "m = c # e" by blast
  from e' c have ok: "item_ok True (In [K Space, C nl]) c" by (auto split: if_splits)
  from m have "m \<in> set (max_repeat ?p s)" by simp
  from max_repeat_mem[OF this] obtain w where w: "s = w @ m" "\<forall>c \<in> set w. ?p c" by blast
  have "\<not> is_terminal a" if "a \<in> set w" for a
    using w(2) that by (auto simp: is_terminal_def)
  moreover have "\<not> is_terminal c"
    using ok terminal_not_space[of c] by (auto simp: isspace_lower lower_nl_eq)
  ultimately have "s = (w @ [c]) @ e \<and> (\<forall>a \<in> set (w @ [c]). \<not> is_terminal a)"
    using w(1) c by auto
  then show ?thesis by blast
qed

lemma rep_consumed:
  assumes "\<And>s e. e \<in> set (ends ci r s) \<Longrightarrow> \<exists>w. s = w @ e \<and> (\<forall>c \<in> set w. Q c)"
  shows "e \<in> set (ends ci (Rep n r) s) \<Longrightarrow> \<exists>w. s = w @ e \<and> (\<forall>c \<in> set w. Q c)"
proof (induction n arbitrary: s e)
  case 0
  then show ?case by simp
next
  case (Suc n)
  show ?case
  proof (cases "e = s")
    case True
    then show ?thesis by simp
  next
    case False
    with Suc.prems obtain m where m: "m \<in> set (ends ci r s)" "e \<in> set (ends ci (Rep n r) m)"
      by auto
    from assms[OF m(1)] obtain w1 where w1: "s = w1 @ m" "\<forall>c \<in> set w1. Q c" by blast
    from Suc.IH[OF m(2)] obtain w2 where w2: "m = w2 @ e" "\<forall>c \<in> set w2. Q c" by blast
    from w1 w2 have "s = (w1 @ w2) @ e \<and> (\<forall>c \<in> set (w1 @ w2). Q c)" by auto
    then show ?thesis by blast
  qed
qed

lemma question_letters:
  "list_all (\<lambda>d. lower d \<noteq> lower CHR ''.'' \<and> lower d \<noteq> lower CHR ''!'' \<and> lower d \<noteq> lower CHR ''?'')
     ''The question is whether''"
  by code_simp

lemma phrase_consumed:
  assumes "starts_ci ''The question is whether'' g"
  shows "\<forall>c \<in> set (take (length ''The question is whether'') g). \<not> is_terminal c"
proof -
  let ?ph = "''The question is whether''"
  from assms have m: "map lower (take (length ?ph) g) = map lower ?ph"
    by (simp only: starts_ci_lower)
  show ?thesis
  proof
    fix c assume c: "c \<in> set (take (length ?ph) g)"
    then have "lower c \<in> set (map lower (take (length ?ph) g))" by (simp del: take_Suc_Cons)
    with m have "lower c \<in> lower ` set ?ph" by (simp only: set_map)
    then obtain d where d: "d \<in> set ?ph" "lower c = lower d" by blast
    from question_letters d(1) have
      "lower d \<noteq> lower CHR ''.'' \<and> lower d \<noteq> lower CHR ''!'' \<and> lower d \<noteq> lower CHR ''?''"
      unfolding list_all_iff by blast
    with d(2) show "\<not> is_terminal c" by (auto simp: is_terminal_def)
  qed
qed

text \<open>\<open>[\.!?](?=\s|$)\<close>, the end of the pattern.\<close>

lemma question_end_mem:
  assumes "e \<in> set (ends True (seq [One (In [C CHR ''.'', C CHR ''!'', C CHR ''?'']),
                           Look (Alt (One (Cat Space)) Eos)]) x)"
  shows "\<exists>t. x = t # e"
proof -
  from assms obtain m where
    m: "m \<in> set (ends True (One (In [C CHR ''.'', C CHR ''!'', C CHR ''?''])) x)"
    and e: "e \<in> set (ends True (seq [Look (Alt (One (Cat Space)) Eos)]) m)"
    unfolding ends_seq_mem by blast
  from e have "e \<in> set (ends True (Look (Alt (One (Cat Space)) Eos)) m)"
    by (simp only: ends_seq_single)
  then have "e = m" by (rule ends_Look_mem)
  with ends_One_mem[OF m] show ?thesis by simp
qed

lemma question_end_hit:
  assumes "is_terminal c" "b = [] \<or> isspace (hd b)"
  shows "ends True (seq [One (In [C CHR ''.'', C CHR ''!'', C CHR ''?'']),
                         Look (Alt (One (Cat Space)) Eos)]) (c # b) = [b]"
proof -
  have 1: "item_ok True (In [C CHR ''.'', C CHR ''!'', C CHR ''?'']) c"
    using assms(1) by (auto simp: is_terminal_def)
  have 2: "ends True (Alt (One (Cat Space)) Eos) b \<noteq> []"
    using assms(2) by (cases b) auto
  then have "ends True (Look (Alt (One (Cat Space)) Eos)) b = [b]" by simp
  then have 3: "ends True (seq [Look (Alt (One (Cat Space)) Eos)]) b = [b]"
    by (simp only: ends_seq_single)
  have "ends True (One (In [C CHR ''.'', C CHR ''!'', C CHR ''?''])) (c # b) = [b]"
    using 1 by simp
  then show ?thesis unfolding ends_seq_Cons[of True "One _"] using 3 by simp
qed

text \<open>
  The first way in which the pattern matches at \<open>s\<close> does not run over a
  sentence-terminal mark that whitespace or the end of the text follows.
\<close>

lemma question_first:
  assumes E: "ends True question_re s = e # es"
    and s: "s = a @ c # b" and c: "is_terminal c" and b: "b = [] \<or> isspace (hd b)"
  shows "length b \<le> length e"
proof (rule ccontr)
  assume "\<not> length b \<le> length e"
  then have short: "length e < length b" by simp
  let ?clause = "seq [Star (NotIn [C nl, C CHR ''.'', C CHR ''!'', C CHR ''?'']),
                      One (In [K Space, C nl])]"
  define ph where "ph = ''The question is whether''"
  let ?T = "One (In [C CHR ''.'', C CHR ''!'', C CHR ''?''])"
  let ?L = "Look (Alt (One (Cat Space)) Eos)"
  from E have E': "ends True (seq [Rep 50 ?clause, lit ph, Lazy Dot, ?T, ?L]) s = e # es"
    by (simp only: question_re_def ph_def)
  from ends_seq_first[OF E'] obtain g es1 where
    g: "g \<in> set (ends True (Rep 50 ?clause) s)"
    and F1: "ends True (seq [lit ph, Lazy Dot, ?T, ?L]) g = e # es1" by blast
  from ends_seq_first[OF F1] obtain h es2 where
    h: "h \<in> set (ends True (lit ph) g)"
    and F2: "ends True (seq [Lazy Dot, ?T, ?L]) h = e # es2" by blast
  from h have "starts_ci ph g \<and> h = drop (length ph) g"
    by (cases "starts_ci ph g") (simp_all add: ends_lit_ci)
  then have st: "starts_ci ph g" and hg: "h = drop (length ph) g" by simp_all
  from F2 have "concat (map (ends True (seq [?T, ?L])) (min_repeat (item_ok True Dot) h)) = e # es2"
    by (simp only: ends_seq_Cons ends.simps)
  from min_repeat_first[OF this] obtain w3 x es' where
    hx: "h = w3 @ x" and F3: "ends True (seq [?T, ?L]) x = e # es'"
    and minimal: "\<forall>w1 w2. w3 = w1 @ w2 \<and> w2 \<noteq> [] \<longrightarrow> ends True (seq [?T, ?L]) (w2 @ x) = []"
    by blast
  from F3 have "e \<in> set (ends True (seq [?T, ?L]) x)" by simp
  from question_end_mem[OF this] obtain t where x: "x = t # e" by blast
  from rep_consumed[of True ?clause "\<lambda>c. \<not> is_terminal c", OF clause_consumed g]
  obtain wG where wG: "s = wG @ g" "\<forall>c \<in> set wG. \<not> is_terminal c" by blast
  define wP where "wP = take (length ph) g"
  have gP: "g = wP @ h" unfolding wP_def hg by (rule append_take_drop_id[symmetric])
  have wP: "\<forall>c \<in> set wP. \<not> is_terminal c"
    unfolding wP_def using st unfolding ph_def by (rule phrase_consumed)
  define u where "u = wG @ wP"
  have u1: "s = u @ w3 @ t # e" using wG(1) gP hx x by (simp add: u_def)
  have u2: "\<forall>c \<in> set u. \<not> is_terminal c" using wG(2) wP by (auto simp: u_def)
  have "length s = length a + 1 + length b" using s by simp
  moreover have "length s = length u + length w3 + 1 + length e" using u1 by simp
  ultimately have len: "length a + 1 + length b = length u + length w3 + 1 + length e" by simp
  show False
  proof (cases "length a < length u")
    case True
    then have "s ! length a = u ! length a" using u1 by (simp add: nth_append)
    moreover have "s ! length a = c" using s by simp
    ultimately have "c \<in> set u" using True nth_mem[of "length a" u] by simp
    with u2 c show False by blast
  next
    case False
    define k where "k = length a - length u"
    have k: "k < length w3" using False short len by (simp add: k_def)
    have "drop (length a) s = c # b" using s by simp
    moreover have "drop (length a) s = drop k w3 @ t # e"
      using False k unfolding u1 by (simp add: k_def)
    ultimately have cb: "drop k w3 @ x = c # b" using x by simp
    have "w3 = take k w3 @ drop k w3 \<and> drop k w3 \<noteq> []" using k by simp
    with minimal have "ends True (seq [?T, ?L]) (drop k w3 @ x) = []" by blast
    with cb question_end_hit[OF c b] show False by simp
  qed
qed

lemma question_consumes:
  assumes "e \<in> set (ends True question_re s)"
  shows "e \<noteq> s"
proof -
  let ?clause = "seq [Star (NotIn [C nl, C CHR ''.'', C CHR ''!'', C CHR ''?'']),
                      One (In [K Space, C nl])]"
  let ?ph = "''The question is whether''"
  let ?T = "One (In [C CHR ''.'', C CHR ''!'', C CHR ''?''])"
  let ?L = "Look (Alt (One (Cat Space)) Eos)"
  from assms have "e \<in> set (ends True (seq [Rep 50 ?clause, lit ?ph, Lazy Dot, ?T, ?L]) s)"
    by (simp only: question_re_def)
  then obtain g h x where
    g: "g \<in> set (ends True (Rep 50 ?clause) s)"
    and h: "h \<in> set (ends True (lit ?ph) g)"
    and x: "x \<in> set (ends True (Lazy Dot) h)"
    and e: "e \<in> set (ends True (seq [?T, ?L]) x)"
    unfolding ends_seq_mem by blast
  have "suffix g s" "suffix h g" "suffix x h"
    by (rule ends_suffix[OF g], rule ends_suffix[OF h], rule ends_suffix[OF x])
  then have "suffix x s" by (meson suffix_order.trans)
  then have "length x \<le> length s" by (rule suffix_length_le)
  moreover from question_end_mem[OF e] obtain t where "x = t # e" by blast
  ultimately show ?thesis by auto
qed

lemma search_mem:
  "search ci r must s = Some (st, e) \<Longrightarrow> suffix st s \<and> (\<exists>m. re_match ci r m st = Some e)"
proof (induction s arbitrary: must)
  case Nil
  then show ?case by (auto split: option.splits)
next
  case (Cons c cs)
  show ?case
  proof (cases "re_match ci r must (c # cs)")
    case None
    with Cons.prems have "search ci r False cs = Some (st, e)" by simp
    from Cons.IH[OF this] show ?thesis by (auto intro: suffix_ConsI)
  next
    case (Some y)
    with Cons.prems have "st = c # cs" "y = e" by auto
    with Some show ?thesis by auto
  qed
qed

lemma finditer_from_mem:
  "(st, e) \<in> set (finditer_from ci r must s) \<Longrightarrow>
     suffix st s \<and> (\<exists>m. re_match ci r m st = Some e)"
proof (induction ci r must s rule: finditer_from.induct)
  case (1 ci r must s)
  show ?case
  proof (cases "search ci r must s")
    case None
    with 1(2) show ?thesis by (simp add: finditer_from.simps[of ci r must s])
  next
    case (Some a)
    obtain st' e' where a: "a = (st', e')" by (cases a)
    from search_suffix[OF Some[unfolded a]] have suf: "suffix st' s" "suffix e' st'" by auto
    from 1(2) Some a have "(st, e) = (st', e') \<or> (st, e) \<in> set (finditer_from ci r (e' = st') e')"
      by (simp add: finditer_from.simps[of ci r must s])
    then show ?thesis
    proof
      assume "(st, e) = (st', e')"
      with search_mem[OF Some[unfolded a]] show ?thesis by simp
    next
      assume "(st, e) \<in> set (finditer_from ci r (e' = st') e')"
      from 1(1)[OF Some[unfolded a] refl this] suf show ?thesis
        by (meson suffix_order.trans)
    qed
  qed
qed

lemma find_all_first: "find P xs = Some e \<Longrightarrow> \<forall>x \<in> set xs. P x \<Longrightarrow> \<exists>es. xs = e # es"
  by (cases xs) auto

text \<open>
  No match of the pattern runs over a sentence-terminal mark that whitespace or the end
  of the text follows: it ends at the mark or before it, or it starts after it.
\<close>

lemma question_spans:
  assumes "(st, e) \<in> set (finditer_from True question_re must s)"
    and "s = a @ c # b" and "is_terminal c" and "b = [] \<or> isspace (hd b)"
  shows "length st \<le> length b \<or> length b \<le> length e"
proof (cases "length st \<le> length b")
  case True
  then show ?thesis by simp
next
  case False
  from finditer_from_mem[OF assms(1)] obtain m where
    st: "suffix st s" and m: "re_match True question_re m st = Some e" by blast
  have cb: "suffix (c # b) s" unfolding assms(2) by (rule suffixI) simp
  have "length (c # b) \<le> length st" using False by simp
  with cb st have "suffix (c # b) st" by (rule suffix_length_suffix)
  then obtain a' where a': "st = a' @ c # b" by (rule suffixE)
  from m have f: "find (\<lambda>x. \<not> (m \<and> x = st)) (ends True question_re st) = Some e"
    by (simp only: re_match_def)
  have "\<forall>x \<in> set (ends True question_re st). \<not> (m \<and> x = st)"
  proof
    fix x assume "x \<in> set (ends True question_re st)"
    then have "x \<noteq> st" by (rule question_consumes)
    then show "\<not> (m \<and> x = st)" by simp
  qed
  from find_all_first[OF f this] obtain es where "ends True question_re st = e # es" by blast
  from question_first[OF this a' assms(3,4)] show ?thesis by simp
qed

section \<open>Matches as parts of the text\<close>

text \<open>
  \<open>finditer_from\<close> gives each match as a pair: the rest of the text from the start of
  the match, and the rest of the text from its end.
\<close>

lemma finditer_from_spans:
  assumes "(st, e) \<in> set (finditer_from ci r must s)"
  shows "suffix st s \<and> suffix e st"
proof -
  from finditer_from_mem[OF assms] obtain m where
    "suffix st s" and m: "re_match ci r m st = Some e" by blast
  moreover from re_match_suffix[OF m] have "suffix e st" by simp
  ultimately show ?thesis by simp
qed














text \<open>The records of one pattern among those that the two loops build.\<close>

lemma leading_case_records:
  "filter (\<lambda>p. pattern_matched p = ''The leading case'')
       (match_patterns cit case_title pdf_url document_text) =
     map (\<lambda>m. \<lparr>doc_id = make_doc_id cit, title = case_title, url = pdf_url,
                proposition_text = strip m, citation = cit,
                pattern_matched = ''The leading case''\<rparr>)
       (finditer \<lparr>ignorecase = True, body = line_with ''The leading case''\<rparr> document_text)"
  by (simp add: match_patterns_def PATTERNS_def filter_map comp_def)

lemma leading_case_fold: "map lower ''The leading case'' = map lower ''the leading case''"
  by code_simp

lemma leading_case_lines:
  "finditer \<lparr>ignorecase = True, body = line_with ''The leading case''\<rparr> document_text =
     filter (contains_ci ''the leading case'') (split_lines document_text)"
proof -
  have "contains_ci ''The leading case'' = contains_ci ''the leading case''"
    by (rule ext) (rule contains_ci_fold[OF leading_case_fold])
  moreover have "nl \<notin> set ''The leading case''" by (simp add: nl_def)
  ultimately show ?thesis
    by (simp add: finditer_def finditer_from_line)
qed

lemma one_line_document:
  "nl \<notin> set s \<Longrightarrow> contains_ci ph s \<Longrightarrow> filter (contains_ci ph) (split_lines s) = [s]"
  by (simp add: split_lines_one)

lemma wrapped_lines:
  "filter (contains_ci ''the leading case'') (split_lines wrapped_sentence) =
     [''Smith is the leading case and'', ''it remains the leading case.'']"
  by code_simp

lemma strip_wrapped:
  "map strip [''Smith is the leading case and'', ''it remains the leading case.''] =
     [''Smith is the leading case and'', ''it remains the leading case.'']"
  by code_simp

text \<open>The pattern of the question on two short texts.\<close>

lemma question_then_so:
  "finditer_from True question_re False ''The question is whether. So'' =
     [(''The question is whether. So'', '' So'')]"
  by code_simp

lemma question_then_no:
  "finditer \<lparr>ignorecase = True, body = question_re\<rparr> ''The question is whether.No.'' =
     [''The question is whether.No.'']"
  by code_simp

section \<open>Claims\<close>

lemma example_2019:
  "re_search citation_re ''[2019] NZSC 45'' = Some ''[2019] NZSC 45''"
  "make_doc_id ''[2019] NZSC 45'' = ''2019_NZSC_45''"
  "spec_doc_id ''[2019] NZSC 45'' = ''2019NZSC45''"
  by code_simp+

text \<open>
  C1, as amended. The \<open>doc_id\<close> of every record built from a citation is the citation
  with \<open>[\<close> and \<open>]\<close> removed and every space replaced by an underscore; the citation
  \<open>[2019] NZSC 45\<close> gives \<open>2019_NZSC_45\<close>.
\<close>

theorem C1_doc_id_from_citation:
  "(\<forall>p \<in> set (match_patterns cit case_title pdf_url document_text).
      doc_id p = map (\<lambda>c. if c = CHR '' '' then CHR ''_'' else c)
                   (filter (\<lambda>c. c \<noteq> CHR ''['' \<and> c \<noteq> CHR '']'') cit))
   \<and> make_doc_id ''[2019] NZSC 45'' = ''2019_NZSC_45''"
  using match_patterns_fields[of _ cit case_title pdf_url document_text]
  by (simp add: make_doc_id_eq[symmetric] example_2019)

theorem C1_doc_id_from_citation_witness:
  "map doc_id (match_patterns ''[2019] NZSC 45'' ''R v Smith'' ''u'' example_text)
     = [''2019_NZSC_45'']"
  using C1_doc_id_from_citation[of "''[2019] NZSC 45''" "''R v Smith''" "''u''" example_text]
  by (simp add: example_match_patterns)

text \<open>
  C1 as the specification words it fails: the spaces of a citation are not removed, they
  become underscores.
\<close>

theorem C1_spaces_not_removed:
  "re_search citation_re ''[2019] NZSC 45'' = Some ''[2019] NZSC 45''
   \<and> map doc_id (match_patterns ''[2019] NZSC 45'' ''R v Smith'' ''u'' example_text)
       = [''2019_NZSC_45'']
   \<and> ''2019_NZSC_45'' \<noteq> spec_doc_id ''[2019] NZSC 45''"
  by (simp add: example_match_patterns example_2019)



text \<open>
  C3. A result row without an \<open>h3\<close> element lacks a heading link, and the program does
  not skip it: \<open>find('a')\<close> is called on \<open>None\<close>, the exception is not caught, and the
  rows after it are never processed.
\<close>

theorem C3_row_without_h3_raises:
  "process_result env year \<lparr>find_h3 = None, find_meta_data = meta\<rparr> st = Inl AttributeError
   \<and> for_results env year (\<lparr>find_h3 = None, find_meta_data = meta\<rparr> # rest) st
       = Raised AttributeError st"
  by (cases st) (simp add: process_result_def)

text \<open>The rows the test of the program does skip: no link in the heading, or no meta-data.\<close>

lemma process_result_skips:
  "find_h3 res = Some h \<Longrightarrow> find_a h = None \<or> find_meta_data res = None \<Longrightarrow>
     process_result env year res st = Inr st"
  by (cases st) (auto simp: process_result_def split: option.splits)

text \<open>
  C4, as amended. When exactly one line of the document text holds the phrase
  \<open>the leading case\<close>, in any letter case, the pattern named \<open>The leading case\<close> has exactly
  one match, that line, and the loops build exactly one record for the pattern, its
  proposition being the line without its leading and trailing whitespace. A document of
  one line that holds the phrase is such a text (\<open>one_line_document\<close>); whether the line
  ends in a sentence-terminal mark plays no role.
\<close>

theorem C4_leading_case_line:
  assumes "filter (contains_ci ''the leading case'') (split_lines document_text) = [line]"
  shows "finditer \<lparr>ignorecase = True, body = line_with ''The leading case''\<rparr> document_text = [line]
    \<and> filter (\<lambda>p. pattern_matched p = ''The leading case'')
          (match_patterns cit case_title pdf_url document_text) =
        [\<lparr>doc_id = make_doc_id cit, title = case_title, url = pdf_url,
          proposition_text = strip line, citation = cit,
          pattern_matched = ''The leading case''\<rparr>]"
  using assms by (simp add: leading_case_records leading_case_lines)

theorem C4_leading_case_line_witness:
  "filter (\<lambda>p. pattern_matched p = ''The leading case'')
       (match_patterns ''[2021] NZSC 12'' ''R v Smith'' ''u'' ''  Smith is the leading case. '') =
     [\<lparr>doc_id = ''2021_NZSC_12'', title = ''R v Smith'', url = ''u'',
       proposition_text = ''Smith is the leading case.'', citation = ''[2021] NZSC 12'',
       pattern_matched = ''The leading case''\<rparr>]"
proof -
  have "nl \<notin> set ''  Smith is the leading case. ''" by (simp add: nl_def)
  moreover have "contains_ci ''the leading case'' ''  Smith is the leading case. ''"
    by code_simp
  ultimately have "filter (contains_ci ''the leading case'')
      (split_lines ''  Smith is the leading case. '') = [''  Smith is the leading case. '']"
    by (rule one_line_document)
  moreover have "strip ''  Smith is the leading case. '' = ''Smith is the leading case.''"
    by code_simp
  ultimately show ?thesis
    using C4_leading_case_line[of "''  Smith is the leading case. ''"
        "''  Smith is the leading case. ''" "''[2021] NZSC 12''" "''R v Smith''" "''u''"]
    by (simp add: example_doc_id)
qed

text \<open>
  C4 as the specification words it fails: a sentence that runs over two lines and holds
  the phrase on both is one sentence, ending in a period, and gives two matches.
\<close>

theorem C4_two_lines_two_matches:
  "map proposition_text (filter (\<lambda>p. pattern_matched p = ''The leading case'')
       (match_patterns ''[2021] NZSC 12'' ''R v Smith'' ''u'' wrapped_sentence)) =
     [''Smith is the leading case and'', ''it remains the leading case.'']"
  using strip_wrapped
  by (simp add: leading_case_records leading_case_lines wrapped_lines comp_def)

text \<open>
  C5, as amended. The matches of the pattern named \<open>The question is whether\<close> are the pairs
  of \<open>finditer_from\<close>: the rest of the text from the start of a match, and the rest from
  its end. Let a sentence-terminal mark \<open>c\<close> stand in the document text, after \<open>a\<close> and
  before \<open>b\<close>, with whitespace or the end of the text behind it: a period right after the
  phrase, at the end of a sentence, is such a mark. Then no match runs over the mark:
  a match starts behind it, or it ends at the mark or before it.
\<close>

theorem C5_question_ends_at_mark:
  assumes "map_of PATTERNS ''The question is whether'' = Some p"
    and "document_text = a @ c # b" and "is_terminal c" and "b = [] \<or> isspace (hd b)"
    and "(st, e) \<in> set (finditer_from (ignorecase p) (body p) False document_text)"
  shows "suffix st document_text \<and> suffix e st \<and> (suffix st b \<or> suffix b e)"
proof -
  from assms(1) have p: "ignorecase p = True" "body p = question_re"
    by (auto simp: PATTERNS_def)
  from assms(5) have m: "(st, e) \<in> set (finditer_from True question_re False document_text)"
    by (simp only: p)
  from finditer_from_spans[OF m] have st: "suffix st document_text" and e: "suffix e st"
    by simp_all
  from e st have e': "suffix e document_text" by (rule suffix_order.trans)
  have b: "suffix b document_text" unfolding assms(2) by (rule suffixI[of _ "a @ [c]"]) simp
  from question_spans[OF m assms(2,3,4)] have "suffix st b \<or> suffix b e"
  proof
    assume "length st \<le> length b"
    with st b have "suffix st b" by (rule suffix_length_suffix)
    then show ?thesis ..
  next
    assume "length b \<le> length e"
    with b e' have "suffix b e" by (rule suffix_length_suffix)
    then show ?thesis ..
  qed
  with st e show ?thesis by simp
qed

theorem C5_question_ends_at_mark_witness:
  "map_of PATTERNS ''The question is whether'' = Some \<lparr>ignorecase = True, body = question_re\<rparr>
   \<and> finditer_from True question_re False ''The question is whether. So'' =
        [(''The question is whether. So'', '' So'')]
   \<and> is_terminal CHR ''.'' \<and> isspace (hd '' So'')
   \<and> suffix '' So'' ''The question is whether. So''
   \<and> (suffix ''The question is whether. So'' '' So'' \<or> suffix '' So'' '' So'')"
proof -
  let ?p = "\<lparr>ignorecase = True, body = question_re\<rparr>"
  have p: "map_of PATTERNS ''The question is whether'' = Some ?p" by (simp add: PATTERNS_def)
  have t: "is_terminal CHR ''.''" by (simp add: is_terminal_def)
  have s: "isspace (hd '' So'')" by code_simp
  have m: "(''The question is whether. So'', '' So'')
      \<in> set (finditer_from (ignorecase ?p) (body ?p) False ''The question is whether. So'')"
    by (simp add: question_then_so)
  have d: "''The question is whether. So'' = ''The question is whether'' @ CHR ''.'' # '' So''"
    by simp
  from C5_question_ends_at_mark[OF p d t disjI2[OF s] m] p t s question_then_so
  show ?thesis by simp
qed

text \<open>
  C5 as the specification words it fails: a period right after the phrase with a letter
  behind it does not end the match, which runs on into the next sentence, to the first
  mark that whitespace or the end of the text follows.
\<close>

theorem C5_match_runs_on:
  "map_of PATTERNS ''The question is whether'' = Some \<lparr>ignorecase = True, body = question_re\<rparr>
   \<and> finditer \<lparr>ignorecase = True, body = question_re\<rparr> ''The question is whether.No.'' =
        [''The question is whether.No.'']"
  by (simp add: PATTERNS_def question_then_no)

text \<open>
  C6. When the meta-data of a row holds no citation, the citation is
  \<open>UNKNOWN_CITATION_<year>\<close>, and every record the row adds has that citation and has it
  unchanged as its \<open>doc_id\<close>.
\<close>

theorem C6_placeholder_citation:
  assumes "find_meta_data res = Some meta"
    and "re_search citation_re meta = None"
    and "process_result env year res (w, acc) = Inr (w', acc')"
  shows "find_citation year meta = ''UNKNOWN_CITATION_'' @ str year
    \<and> (\<exists>new. acc' = acc @ new \<and>
          (\<forall>p \<in> set new. citation p = ''UNKNOWN_CITATION_'' @ str year
                          \<and> doc_id p = ''UNKNOWN_CITATION_'' @ str year))"
proof -
  have cit: "find_citation year meta = ''UNKNOWN_CITATION_'' @ str year"
    using assms(2) by (simp add: find_citation_def)
  from process_result_cases[OF assms(3)]
  have "\<exists>new. acc' = acc @ new \<and>
          (\<forall>p \<in> set new. citation p = ''UNKNOWN_CITATION_'' @ str year
                          \<and> doc_id p = ''UNKNOWN_CITATION_'' @ str year)"
  proof
    assume "acc' = acc"
    then have "acc' = acc @ [] \<and> (\<forall>p \<in> set []. citation p = ''UNKNOWN_CITATION_'' @ str year
                          \<and> doc_id p = ''UNKNOWN_CITATION_'' @ str year)" by simp
    then show ?thesis by blast
  next
    assume "\<exists>meta t u text. find_meta_data res = Some meta \<and>
        acc' = acc @ match_patterns (find_citation year meta) t u text"
    then obtain t u doc where
      acc': "acc' = acc @ match_patterns (find_citation year meta) t u doc"
      using assms(1) by auto
    have "citation p = ''UNKNOWN_CITATION_'' @ str year
          \<and> doc_id p = ''UNKNOWN_CITATION_'' @ str year"
      if "p \<in> set (match_patterns (find_citation year meta) t u doc)" for p
      using match_patterns_fields[OF that] unfolding cit placeholder_doc_id by blast
    with acc' show ?thesis by blast
  qed
  with cit show ?thesis by simp
qed

lemma example_no_citation: "re_search citation_re ''12 March 2021'' = None"
  by code_simp

lemma str_2021:
  "str 2021 = ''2021''"
  "make_doc_id ''UNKNOWN_CITATION_2021'' = ''UNKNOWN_CITATION_2021''"
  by code_simp+

theorem C6_placeholder_citation_witness:
  "\<exists>new. new \<noteq> []
     \<and> process_result example_site 2021
         (example_row\<lparr>find_meta_data := Some ''12 March 2021''\<rparr>) ((), []) = Inr ((), new)
     \<and> (\<forall>p \<in> set new. doc_id p = ''UNKNOWN_CITATION_2021'')"
proof -
  let ?row = "example_row\<lparr>find_meta_data := Some ''12 March 2021''\<rparr>"
  have row: "?row = sample_row ''R v Smith'' ''12 March 2021''"
    by (simp add: example_row_def sample_row_def)
  have m: "find_meta_data ?row = Some ''12 March 2021''" by simp
  have pr: "process_result example_site 2021 ?row ((), []) =
     Inr ((), [] @ [\<lparr>doc_id = make_doc_id (find_citation 2021 ''12 March 2021''),
       title = ''R v Smith'', url = BASE_URL @ ''judgment.pdf'',
       proposition_text = ''the leading case'',
       citation = find_citation 2021 ''12 March 2021'',
       pattern_matched = ''The leading case''\<rparr>])"
    unfolding row example_site_def by (rule sample_process_meta)
  from C6_placeholder_citation[OF m example_no_citation pr] pr
  show ?thesis by (simp add: str_2021)
qed

text \<open>
  C7. When the extraction of the PDF of a case gives the empty text, the row adds no
  record and raises nothing, and the loop goes on with the next row.
\<close>

theorem C7_empty_text_adds_nothing:
  assumes "find_h3 res = Some h" and "find_a h = Some tag" and "href tag = Some link"
    and "find_meta_data res = Some meta"
    and "urljoin env BASE_URL link = Inr case_details_url"
    and "get_soup env case_details_url None w = (Inr (Some details), w1)"
    and "find_pdf_tag details = Some pdf_href"
    and "urljoin env BASE_URL pdf_href = Inr pdf_url"
    and "extract_text_from_pdf env pdf_url w1 = ([], w2)"
  shows "process_result env year res (w, acc) = Inr (w2, acc)
    \<and> for_results env year (res # rest) (w, acc) = for_results env year rest (w2, acc)"
  using assms by (simp add: process_result_def)

theorem C7_empty_text_adds_nothing_witness:
  "extract_text_from_pdf (example_site\<lparr>pdfplumber_open := \<lambda>c. Some [Page None]\<rparr>)
       (BASE_URL @ ''judgment.pdf'') () = ([], ())
   \<and> for_results (example_site\<lparr>pdfplumber_open := \<lambda>c. Some [Page None]\<rparr>) 2021
       [example_row] ((), []) = Done ((), [])"
proof -
  let ?env = "example_site\<lparr>pdfplumber_open := \<lambda>c. Some [Page None]\<rparr>"
  let ?tag = "\<lparr>get_text = ''R v Smith'', href = Some ''cases/r-v-smith''\<rparr>"
  have u1: "urljoin ?env BASE_URL ''cases/r-v-smith'' = Inr (BASE_URL @ ''cases/r-v-smith'')"
    and u2: "urljoin ?env BASE_URL ''judgment.pdf'' = Inr (BASE_URL @ ''judgment.pdf'')"
    by (simp_all add: example_site_def sample_urljoin)
  have h3: "find_h3 example_row = Some \<lparr>find_a = Some ?tag\<rparr>"
    and meta: "find_meta_data example_row = Some ''[2021] NZSC 12''"
    by (simp_all add: example_row_def sample_row_def)
  have a: "find_a \<lparr>find_a = Some ?tag\<rparr> = Some ?tag"
    and l: "href ?tag = Some ''cases/r-v-smith''" by simp_all
  have d: "get_soup ?env (BASE_URL @ ''cases/r-v-smith'') None () =
     (Inr (Some \<lparr>find_all_result = [],
            a_tags = [\<lparr>get_text = ''Judgment'', href = Some ''judgment.pdf''\<rparr>]\<rparr>), ())"
  proof -
    have "get_soup ?env a b c = get_soup example_site a b c" for a b c
      by (simp add: get_soup_def split: prod.splits sum.splits)
    with sample_details[of "''R v Smith''" "()"] show ?thesis by (simp add: example_site_def)
  qed
  have e: "extract_text_from_pdf ?env (BASE_URL @ ''judgment.pdf'') () = ([], ())"
    by (simp add: extract_text_from_pdf_def example_site_def sample_requests sample_urls)
  from C7_empty_text_adds_nothing[where year = 2021 and acc = "[]" and rest = "[]",
      OF h3 a l meta u1 d sample_pdf_tag u2 e] e
  show ?thesis by simp
qed




text \<open>
  C9, as amended. When every page gives its text, the extracted text is each non-empty
  page text followed by a newline, in the order of the pages; a page without text adds
  nothing. A PDF of one page with the non-empty text \<open>t\<close> gives \<open>t\<close> followed by a
  newline.
\<close>

theorem C9_pages_each_end_with_newline:
  assumes "requests_get env pdf_url None 30 w = (Inr resp, w')"
    and "status_ok resp"
    and "pdfplumber_open env (content resp) = Some (map Page ts)"
  shows "extract_text_from_pdf env pdf_url w =
           (concat (map (\<lambda>t. t @ [nl]) (filter (\<lambda>t. t \<noteq> []) (List.map_filter id ts))), w')
    \<and> (\<forall>t. ts = [Some t] \<and> t \<noteq> [] \<longrightarrow> extract_text_from_pdf env pdf_url w = (t @ [nl], w'))"
  using assms by (auto simp: extract_text_from_pdf_def pages_text_map List.map_filter_def)

theorem C9_pages_each_end_with_newline_witness:
  "extract_text_from_pdf example_site (BASE_URL @ ''judgment.pdf'') () =
     (''the leading case'' @ [nl], ())"
proof -
  have r: "requests_get example_site (BASE_URL @ ''judgment.pdf'') None 30 () =
             (Inr \<lparr>status_ok = True, content = ''pdf''\<rparr>, ())"
    by (simp add: example_site_def sample_requests sample_urls)
  have p: "pdfplumber_open example_site (content \<lparr>status_ok = True, content = ''pdf''\<rparr>) =
             Some (map Page [Some ''the leading case''])"
    by (simp add: example_site_def sample_site_def)
  from C9_pages_each_end_with_newline[OF r _ p] show ?thesis
    by (simp add: List.map_filter_def)
qed

text \<open>
  C9 as the specification words it fails: the text of a PDF of one page is not the text
  of the page, a newline follows it.
\<close>

theorem C9_single_page_gets_newline:
  "pdfplumber_open example_site ''pdf'' = Some [Page (Some ''the leading case'')]
   \<and> fst (extract_text_from_pdf example_site (BASE_URL @ ''judgment.pdf'') ())
       \<noteq> ''the leading case''"
  by (simp add: example_extract example_text_def) (simp add: example_site_def sample_site_def)

text \<open>
  C10. However far a run has come, no record of its list has a \<open>[\<close>, a \<open>]\<close> or a space
  in its \<open>doc_id\<close>.
\<close>

theorem C10_doc_id_clean:
  "\<forall>p \<in> set (all_propositions (crawl fuel env YEARS_TO_CRAWL (w, []))).
     CHR ''['' \<notin> set (doc_id p) \<and> CHR '']'' \<notin> set (doc_id p) \<and> CHR '' '' \<notin> set (doc_id p)"
proof
  fix p
  assume p: "p \<in> set (all_propositions (crawl fuel env YEARS_TO_CRAWL (w, [])))"
  have "\<forall>p \<in> set (snd (w, [])). derived p" by simp
  from crawl_derived[OF this, of fuel env YEARS_TO_CRAWL] p have "derived p" by blast
  then show "CHR ''['' \<notin> set (doc_id p) \<and> CHR '']'' \<notin> set (doc_id p)
               \<and> CHR '' '' \<notin> set (doc_id p)"
    using make_doc_id_clean[of "citation p"] by (simp add: derived_def)
qed

theorem C10_doc_id_clean_witness:
  "all_propositions (crawl 2 example_site YEARS_TO_CRAWL ((), [])) = [example_data]
   \<and> CHR ''['' \<notin> set (doc_id example_data) \<and> CHR '']'' \<notin> set (doc_id example_data)
   \<and> CHR '' '' \<notin> set (doc_id example_data)"
  using C10_doc_id_clean[of 2 example_site "()"]
  by (simp add: example_crawl)

end
